theory Spec2Isabelle
  imports Main "HOL-Library.AList"
begin

section \<open>JavaScript values and ordinary objects\<close>

text \<open>
  The library moves JSON data between plain JavaScript objects. A value is a primitive,
  a built-in function (reached only by reading a member inherited from
  \<^verbatim>\<open>Object.prototype\<close>), a \<^verbatim>\<open>Date\<close>, a \<^verbatim>\<open>RegExp\<close>, an array, an ordinary object, or
  \<^verbatim>\<open>Object.prototype\<close> itself (reached only by reading \<^verbatim>\<open>obj["__proto__"]\<close>).

  An ordinary object is represented by its own enumerable properties, in the order
  \<^verbatim>\<open>Object.keys\<close> lists them; its prototype is \<^verbatim>\<open>Object.prototype\<close>. A new property is
  appended at the end of the list (JavaScript enumerates keys that are array indices
  such as \<^verbatim>\<open>"0"\<close> first; the model keeps creation order for them as well). A number is
  only carried along, never computed with, and is represented by an integer.
\<close>

datatype jsval =
    JUndefined
  | JNull
  | JBool bool
  | JNum int
  | JStr string
  | JFunction string
  | JDate int
  | JRegExp string
  | JArr "jsval list"
  | JObj "(string \<times> jsval) list"
  | JObjectPrototype

type_synonym props = "(string \<times> jsval) list"

fun typeof :: "jsval \<Rightarrow> string" where
  "typeof JUndefined = ''undefined''"
| "typeof JNull = ''object''"
| "typeof (JBool b) = ''boolean''"
| "typeof (JNum n) = ''number''"
| "typeof (JStr s) = ''string''"
| "typeof (JFunction f) = ''function''"
| "typeof (JDate t) = ''object''"
| "typeof (JRegExp r) = ''object''"
| "typeof (JArr xs) = ''object''"
| "typeof (JObj ps) = ''object''"
| "typeof JObjectPrototype = ''object''"

fun Array_isArray :: "jsval \<Rightarrow> bool" where
  "Array_isArray (JArr xs) = True"
| "Array_isArray v = False"

fun instanceof_Date :: "jsval \<Rightarrow> bool" where
  "instanceof_Date (JDate t) = True"
| "instanceof_Date v = False"

fun instanceof_RegExp :: "jsval \<Rightarrow> bool" where
  "instanceof_RegExp (JRegExp r) = True"
| "instanceof_RegExp v = False"

text \<open>
  \<^verbatim>\<open>Object.keys(v)\<close> with the values of those keys, for the objects the library iterates
  over without looking at their elements: an ordinary object has its properties, while
  \<^verbatim>\<open>Object.prototype\<close>, a \<^verbatim>\<open>Date\<close> and a \<^verbatim>\<open>RegExp\<close> have no own enumerable property.
  Arrays are never iterated through this function.
\<close>

fun own_entries :: "jsval \<Rightarrow> props" where
  "own_entries (JObj ps) = ps"
| "own_entries v = []"

text \<open>The data properties of \<^verbatim>\<open>Object.prototype\<close>; each of them is a function.\<close>

definition Object_prototype_functions :: "string list" where
  "Object_prototype_functions =
     [''constructor'', ''hasOwnProperty'', ''isPrototypeOf'', ''propertyIsEnumerable'',
      ''toLocaleString'', ''toString'', ''valueOf'',
      ''__defineGetter__'', ''__defineSetter__'', ''__lookupGetter__'', ''__lookupSetter__'']"

text \<open>
  What an ordinary object without an own property \<open>k\<close> shows for \<open>k\<close>: the function
  inherited under that name, its prototype for the accessor \<^verbatim>\<open>__proto__\<close>, or
  \<^verbatim>\<open>undefined\<close>.
\<close>

definition inherited :: "string \<Rightarrow> jsval" where
  "inherited k =
     (if k \<in> set Object_prototype_functions then JFunction k
      else if k = ''__proto__'' then JObjectPrototype
      else JUndefined)"

text \<open>The property read \<^verbatim>\<open>obj[k]\<close> on a plain object.\<close>

fun js_get :: "jsval \<Rightarrow> string \<Rightarrow> jsval" where
  "js_get (JObj ps) k = (case map_of ps k of Some v \<Rightarrow> v | None \<Rightarrow> inherited k)"
| "js_get JObjectPrototype k =
     (if k \<in> set Object_prototype_functions then JFunction k
      else if k = ''__proto__'' then JNull
      else JUndefined)"
| "js_get v k = JUndefined"

text \<open>The test \<^verbatim>\<open>k in obj\<close> on an ordinary object: own or inherited.\<close>

definition js_in :: "string \<Rightarrow> (string \<times> 'v) list \<Rightarrow> bool" where
  "js_in k ps \<longleftrightarrow>
     k \<in> fst ` set ps \<or> k \<in> set Object_prototype_functions \<or> k = ''__proto__''"

text \<open>
  The assignment \<^verbatim>\<open>obj[k] = v\<close> on an ordinary object: an own property is overwritten
  in place; otherwise \<^verbatim>\<open>"__proto__"\<close> reaches the inherited setter, which creates no own
  property; any other key becomes a new own property. (The setter replaces the prototype
  when \<open>v\<close> is an object, a function or \<^verbatim>\<open>null\<close>. The model keeps own properties only:
  what a replaced prototype would show to a later read, or do to a later assignment, is
  not part of it.)
\<close>

definition js_set :: "(string \<times> 'v) list \<Rightarrow> string \<Rightarrow> 'v \<Rightarrow> (string \<times> 'v) list" where
  "js_set ps k v =
     (if k = ''__proto__'' \<and> k \<notin> fst ` set ps then ps else AList.update k v ps)"

text \<open>
  Object spread \<^verbatim>\<open>{ ...a, ...b }\<close>: the own enumerable properties of each source are
  defined on a fresh object, in order (also a property named \<^verbatim>\<open>__proto__\<close>).
\<close>

definition spread :: "(string \<times> 'v) list \<Rightarrow> (string \<times> 'v) list \<Rightarrow> (string \<times> 'v) list" where
  "spread src dst = fold (\<lambda>(k, v) acc. AList.update k v acc) src dst"

section \<open>The merge engine (src/core/mergeStrategies.ts)\<close>

datatype MergeStrategy = Merge | Replace | Strict | Deep

definition isPlainObject :: "jsval \<Rightarrow> bool" where
  "isPlainObject v \<longleftrightarrow>
     typeof v = ''object'' \<and> v \<noteq> JNull \<and> \<not> Array_isArray v \<and>
     \<not> instanceof_Date v \<and> \<not> instanceof_RegExp v"

text \<open>
  \<^verbatim>\<open>deepMerge(target, source)\<close>: \<open>deepMerge_loop\<close> is the \<^verbatim>\<open>for\<close> loop over
  \<^verbatim>\<open>Object.keys(source)\<close>, carrying \<^verbatim>\<open>result\<close>.
\<close>

function deepMerge :: "jsval \<Rightarrow> jsval \<Rightarrow> props"
  and deepMerge_loop :: "jsval \<Rightarrow> props \<Rightarrow> props \<Rightarrow> props"
where
  "deepMerge target source =
     deepMerge_loop target (own_entries source) (spread (own_entries target) [])"
| "deepMerge_loop target [] result = result"
| "deepMerge_loop target ((key, sourceVal) # rest) result =
     (let targetVal = js_get target key in
      deepMerge_loop target rest
        (if isPlainObject targetVal \<and> isPlainObject sourceVal
         then js_set result key (JObj (deepMerge targetVal sourceVal))
         else js_set result key sourceVal))"
  by pat_completeness auto

termination
  apply (relation "measure (\<lambda>x. case x of
            Inl (target, source) \<Rightarrow> 2 * size source + 2
          | Inr (target, entries, result) \<Rightarrow>
              2 * size_list (size_prod (\<lambda>_. 0) size) entries + 1)")
  subgoal by simp
  subgoal for target source by (cases source) simp_all
  subgoal by simp
  subgoal by simp
  done

text \<open>The reducer of the \<^verbatim>\<open>"strict"\<close> case, folded over \<^verbatim>\<open>Object.keys(current)\<close>.\<close>

definition strict_step :: "props \<Rightarrow> props \<Rightarrow> string \<Rightarrow> props" where
  "strict_step incoming acc key =
     (if js_in key incoming then js_set acc key (js_get (JObj incoming) key) else acc)"

definition mergeData :: "props \<Rightarrow> props \<Rightarrow> MergeStrategy \<Rightarrow> props" where
  "mergeData current incoming strategy =
     (case strategy of
        Replace \<Rightarrow> incoming
      | Strict \<Rightarrow>
          (let filtered = foldl (strict_step incoming) [] (map fst current)
           in spread filtered (spread current []))
      | Deep \<Rightarrow> deepMerge (JObj current) (JObj incoming)
      | Merge \<Rightarrow> spread incoming (spread current []))"

section \<open>The safe parser (src/core/parseJson.ts)\<close>

datatype JsonAutoFillErrorCode =
  PARSE_ERROR | VALIDATION_ERROR | FILE_READ_ERROR | FILE_TOO_LARGE | INVALID_FILE_TYPE

datatype JsonAutoFillError = JsonAutoFillError (message: string) (code: JsonAutoFillErrorCode)

definition DANGEROUS_KEYS :: "string set" where
  "DANGEROUS_KEYS = {''__proto__'', ''constructor'', ''prototype''}"

text \<open>The keys \<^verbatim>\<open>Object.keys\<close> lists for an array are its indices in decimal.\<close>

definition digit_char :: "nat \<Rightarrow> char" where
  "digit_char d = ''0123456789'' ! (d mod 10)"

fun string_of_nat :: "nat \<Rightarrow> string" where
  "string_of_nat n =
     (if n < 10 then [digit_char n] else string_of_nat (n div 10) @ [digit_char (n mod 10)])"

definition dangerous_key_error :: "string \<Rightarrow> JsonAutoFillError" where
  "dangerous_key_error key =
     JsonAutoFillError
       (''Potentially dangerous key '' @ [CHR 0x22] @ key @ [CHR 0x22] @ '' found in JSON'')
       PARSE_ERROR"

text \<open>
  \<^verbatim>\<open>assertNoPrototypePollution(obj)\<close> returns at once unless \<^verbatim>\<open>typeof obj\<close> is
  \<^verbatim>\<open>"object"\<close> and \<open>obj\<close> is not \<^verbatim>\<open>null\<close>. Otherwise it walks \<^verbatim>\<open>Object.keys(obj)\<close>: the
  properties of an ordinary object (\<open>assertNoPrototypePollution_props\<close>), the indices of
  an array (\<open>assertNoPrototypePollution_elems\<close>, with the index of the next element), and
  nothing for a \<^verbatim>\<open>Date\<close>, a \<^verbatim>\<open>RegExp\<close> or \<^verbatim>\<open>Object.prototype\<close>. A throw is the value \<open>Inl\<close>.
\<close>

fun assertNoPrototypePollution :: "jsval \<Rightarrow> JsonAutoFillError + unit"
  and assertNoPrototypePollution_props :: "props \<Rightarrow> JsonAutoFillError + unit"
  and assertNoPrototypePollution_elems :: "nat \<Rightarrow> jsval list \<Rightarrow> JsonAutoFillError + unit"
where
  "assertNoPrototypePollution (JObj ps) = assertNoPrototypePollution_props ps"
| "assertNoPrototypePollution (JArr xs) = assertNoPrototypePollution_elems 0 xs"
| "assertNoPrototypePollution v = Inr ()"
| "assertNoPrototypePollution_props [] = Inr ()"
| "assertNoPrototypePollution_props ((key, v) # rest) =
     (if key \<in> DANGEROUS_KEYS then Inl (dangerous_key_error key)
      else case assertNoPrototypePollution v of
             Inl e \<Rightarrow> Inl e
           | Inr u \<Rightarrow> assertNoPrototypePollution_props rest)"
| "assertNoPrototypePollution_elems i [] = Inr ()"
| "assertNoPrototypePollution_elems i (v # rest) =
     (if string_of_nat i \<in> DANGEROUS_KEYS then Inl (dangerous_key_error (string_of_nat i))
      else case assertNoPrototypePollution v of
             Inl e \<Rightarrow> Inl e
           | Inr u \<Rightarrow> assertNoPrototypePollution_elems (Suc i) rest)"

text \<open>
  \<^verbatim>\<open>parseJson(text)\<close>. The built-in \<^verbatim>\<open>JSON.parse\<close> is a parameter: it yields the parsed
  value, or \<open>None\<close> where it throws a \<^verbatim>\<open>SyntaxError\<close> (which the \<^verbatim>\<open>catch\<close> turns into
  "Invalid JSON file"; a \<^verbatim>\<open>JsonAutoFillError\<close> is thrown again as it is).
\<close>

definition parseJson :: "(string \<Rightarrow> jsval option) \<Rightarrow> string \<Rightarrow> JsonAutoFillError + jsval" where
  "parseJson JSON_parse text =
     (case JSON_parse text of
        None \<Rightarrow> Inl (JsonAutoFillError ''Invalid JSON file'' PARSE_ERROR)
      | Some parsed \<Rightarrow>
          if typeof parsed \<noteq> ''object'' \<or> parsed = JNull \<or> Array_isArray parsed
          then Inl (JsonAutoFillError
                 ''JSON must be a top-level object (not an array or primitive)'' PARSE_ERROR)
          else (case assertNoPrototypePollution parsed of
                  Inl e \<Rightarrow> Inl e
                | Inr u \<Rightarrow> Inr parsed))"

text \<open>
  The property of the specification: a value contains a reserved key when some object in
  it, at any depth and also below arrays, has a property named by \<open>DANGEROUS_KEYS\<close>.
\<close>

fun contains_reserved_key :: "jsval \<Rightarrow> bool" where
  "contains_reserved_key (JObj ps) =
     (\<exists>(k, v) \<in> set ps. k \<in> DANGEROUS_KEYS \<or> contains_reserved_key v)"
| "contains_reserved_key (JArr xs) = (\<exists>v \<in> set xs. contains_reserved_key v)"
| "contains_reserved_key v = False"

section \<open>The flattener (src/core/flattenObject.ts)\<close>

text \<open>
  \<^verbatim>\<open>flattenObject(obj, parentKey, result)\<close>; the first argument is \<^verbatim>\<open>Object.keys(obj)\<close>
  with the values read in the loop (the \<^verbatim>\<open>hasOwnProperty\<close> test holds for each of
  them). The empty \<^verbatim>\<open>parentKey\<close> is falsy. The recursive call writes into the same
  \<^verbatim>\<open>result\<close>, which is passed on here.
\<close>

function flattenObject :: "props \<Rightarrow> string \<Rightarrow> props \<Rightarrow> props" where
  "flattenObject [] parentKey result = result"
| "flattenObject ((key, value) # rest) parentKey result =
     (let newKey = (if parentKey \<noteq> [] then parentKey @ ''.'' @ key else key) in
      flattenObject rest parentKey
        (if value \<noteq> JNull \<and> typeof value = ''object'' \<and> \<not> Array_isArray value \<and>
            \<not> instanceof_Date value
         then flattenObject (own_entries value) newKey result
         else js_set result newKey value))"
  by pat_completeness auto

termination
  apply (relation "measure (\<lambda>(entries, parentKey, result).
            size_list (size_prod (\<lambda>_. 0) size) entries)")
  subgoal by simp
  subgoal for key "value" by (cases "value") simp_all
  subgoal by simp
  done

section \<open>The mapper (src/core/applyMapping.ts)\<close>

text \<open>
  The text the function inherited under \<open>key\<close> converts to when it is used as a property
  key (the format of V8); \<^verbatim>\<open>Object.prototype.constructor\<close> is the function \<^verbatim>\<open>Object\<close>,
  the others are named like their key.
\<close>

definition function_source :: "string \<Rightarrow> string" where
  "function_source key =
     ''function '' @ (if key = ''constructor'' then ''Object'' else key) @ ''() { [native code] }''"

text \<open>
  \<^verbatim>\<open>fieldMap[key]\<close> as the property key it is used for afterwards, \<open>None\<close> where the read
  gives \<^verbatim>\<open>undefined\<close>: the own entry of the map; otherwise the member inherited from
  \<^verbatim>\<open>Object.prototype\<close>, a function or (for \<^verbatim>\<open>__proto__\<close>) \<^verbatim>\<open>Object.prototype\<close> itself,
  converted to a string by the assignment \<^verbatim>\<open>mapped[mappedKey] = ...\<close>.
\<close>

definition fieldMap_get :: "(string \<times> string) list \<Rightarrow> string \<Rightarrow> string option" where
  "fieldMap_get fieldMap key =
     (case map_of fieldMap key of
        Some dst \<Rightarrow> Some dst
      | None \<Rightarrow>
          if key \<in> set Object_prototype_functions then Some (function_source key)
          else if key = ''__proto__'' then Some ''[object Object]''
          else None)"

text \<open>The destination \<^verbatim>\<open>fieldMap[key] ?? key\<close>.\<close>

definition mappedKey :: "(string \<times> string) list \<Rightarrow> string \<Rightarrow> string" where
  "mappedKey fieldMap key = (case fieldMap_get fieldMap key of Some dst \<Rightarrow> dst | None \<Rightarrow> key)"

definition applyMapping :: "props \<Rightarrow> (string \<times> string) list option \<Rightarrow> props" where
  "applyMapping data fieldMap =
     (case fieldMap of
        None \<Rightarrow> data
      | Some fm \<Rightarrow> fold (\<lambda>(key, v) mapped. js_set mapped (mappedKey fm key) v) data [])"

section \<open>The pipeline (src/core/processJsonData.ts)\<close>

text \<open>
  What a callback or a stage throws: a \<^verbatim>\<open>JsonAutoFillError\<close>, another \<^verbatim>\<open>Error\<close> with its
  message, or a value that is no \<^verbatim>\<open>Error\<close>. A rejected promise is a throw at the \<^verbatim>\<open>await\<close>.
\<close>

datatype thrown =
    Thrown_JsonAutoFillError JsonAutoFillError
  | Thrown_Error string
  | Thrown_other

text \<open>
  \<^verbatim>\<open>JsonAutoFillOptions\<close>; an option that is not configured is \<open>None\<close>, and absent
  options are the record of \<open>None\<close>s. A callback returns a value or throws; the three
  notifications return nothing (\<open>None\<close>) or throw.
\<close>

record options =
  mergeStrategy :: "MergeStrategy option"
  fieldMap :: "(string \<times> string) list option"
  flatten :: "bool option"
  transform :: "(props \<Rightarrow> thrown + props) option"
  validate :: "(props \<Rightarrow> thrown + bool) option"
  onBeforeFill :: "(props \<Rightarrow> thrown + jsval) option"
  onAfterFill :: "(props \<Rightarrow> thrown option) option"
  onError :: "(JsonAutoFillError \<Rightarrow> thrown option) option"
  onSuccess :: "(props \<Rightarrow> thrown option) option"

datatype json_input = Text string | Object props

record pipeline_result =
  data :: props
  cancelled :: bool

text \<open>
  \<^verbatim>\<open>processJsonData(jsonInput, options)\<close>. \<^verbatim>\<open>JSON.parse\<close> gives an ordinary object for a
  JSON object, so the parsed record is taken by its own entries.
\<close>

definition processJsonData ::
  "(string \<Rightarrow> jsval option) \<Rightarrow> json_input \<Rightarrow> options \<Rightarrow> thrown + pipeline_result" where
  "processJsonData JSON_parse jsonInput opts =
     (case (case jsonInput of
              Text text \<Rightarrow>
                (case parseJson JSON_parse text of
                   Inl e \<Rightarrow> Inl (Thrown_JsonAutoFillError e)
                 | Inr v \<Rightarrow> Inr (own_entries v))
            | Object obj \<Rightarrow> Inr obj) of
        Inl t \<Rightarrow> Inl t
      | Inr parsed \<Rightarrow>
          let shouldFlatten = (flatten opts \<noteq> Some False);
              processed = (if shouldFlatten then flattenObject parsed [] [] else parsed);
              mapped = applyMapping processed (fieldMap opts)
          in case (case transform opts of Some f \<Rightarrow> f mapped | None \<Rightarrow> Inr mapped) of
               Inl t \<Rightarrow> Inl t
             | Inr transformed \<Rightarrow>
                 (case (case validate opts of
                          Some f \<Rightarrow> f transformed
                        | None \<Rightarrow> Inr True) of
                    Inl t \<Rightarrow> Inl t
                  | Inr isValid \<Rightarrow>
                      if \<not> isValid
                      then Inl (Thrown_JsonAutoFillError
                             (JsonAutoFillError ''Validation failed'' VALIDATION_ERROR))
                      else (case (case onBeforeFill opts of
                                    Some f \<Rightarrow> f transformed
                                  | None \<Rightarrow> Inr JUndefined) of
                              Inl t \<Rightarrow> Inl t
                            | Inr shouldProceed \<Rightarrow>
                                if shouldProceed = JBool False
                                then Inr \<lparr>data = transformed, cancelled = True\<rparr>
                                else Inr \<lparr>data = transformed, cancelled = False\<rparr>)))"

section \<open>The plain-state binding (src/hooks/useJsonAutoFill.ts)\<close>

text \<open>
  The state container holds the form data; \<open>calls\<close> records, in order, the calls made
  to the setter of the container and to the notifications.
\<close>

datatype call =
    SetFormData props
  | OnError JsonAutoFillError
  | OnAfterFill props
  | OnSuccess props

record container =
  formData :: props
  calls :: "call list"

text \<open>
  \<^verbatim>\<open>setFormData(updater)\<close>: the container applies the updater to the value it holds;
  the call is recorded with the value stored. (A container that defers its updates, as
  the state setter of React may, is called at the same point; the record orders the
  calls.)
\<close>

definition setFormData :: "(props \<Rightarrow> props) \<Rightarrow> container \<Rightarrow> container" where
  "setFormData updater c =
     (let v = updater (formData c) in c\<lparr>formData := v, calls := calls c @ [SetFormData v]\<rparr>)"

text \<open>An optional notification \<^verbatim>\<open>opts?.f?.(x)\<close>: recorded when configured; it may throw.\<close>

definition notify ::
  "('a \<Rightarrow> thrown option) option \<Rightarrow> ('a \<Rightarrow> call) \<Rightarrow> 'a \<Rightarrow> container
     \<Rightarrow> thrown option \<times> container" where
  "notify callback tag x c =
     (case callback of
        None \<Rightarrow> (None, c)
      | Some f \<Rightarrow> (f x, c\<lparr>calls := calls c @ [tag x]\<rparr>))"

text \<open>
  The \<^verbatim>\<open>catch\<close> block of \<^verbatim>\<open>processJson\<close>: the error is passed on when it is a
  \<^verbatim>\<open>JsonAutoFillError\<close> and wrapped as a parse error otherwise; a throw of \<^verbatim>\<open>onError\<close>
  itself leaves the function.
\<close>

definition autoFillError :: "thrown \<Rightarrow> JsonAutoFillError" where
  "autoFillError error =
     (case error of
        Thrown_JsonAutoFillError e \<Rightarrow> e
      | Thrown_Error msg \<Rightarrow> JsonAutoFillError msg PARSE_ERROR
      | Thrown_other \<Rightarrow> JsonAutoFillError ''Unknown error'' PARSE_ERROR)"

definition catch_block :: "options \<Rightarrow> thrown \<Rightarrow> container \<Rightarrow> (thrown + bool) \<times> container" where
  "catch_block opts error c =
     (case notify (onError opts) OnError (autoFillError error) c of
        (Some t, c') \<Rightarrow> (Inl t, c')
      | (None, c') \<Rightarrow> (Inr False, c'))"

text \<open>
  \<^verbatim>\<open>processJson(jsonInput)\<close>: the \<^verbatim>\<open>try\<close> block encloses the pipeline, the call of the
  setter and the two notifications of success.
\<close>

definition processJson ::
  "(string \<Rightarrow> jsval option) \<Rightarrow> options \<Rightarrow> json_input \<Rightarrow> container
     \<Rightarrow> (thrown + bool) \<times> container" where
  "processJson JSON_parse opts jsonInput c =
     (case processJsonData JSON_parse jsonInput opts of
        Inl error \<Rightarrow> catch_block opts error c
      | Inr r \<Rightarrow>
          if cancelled r then (Inr False, c)
          else
            let strategy = (case mergeStrategy opts of Some s \<Rightarrow> s | None \<Rightarrow> Merge);
                c1 = setFormData (\<lambda>prev. mergeData prev (data r) strategy) c
            in case notify (onAfterFill opts) OnAfterFill (data r) c1 of
                 (Some t, c2) \<Rightarrow> catch_block opts t c2
               | (None, c2) \<Rightarrow>
                   (case notify (onSuccess opts) OnSuccess (data r) c2 of
                      (Some t, c3) \<Rightarrow> catch_block opts t c3
                    | (None, c3) \<Rightarrow> (Inr True, c3)))"

section \<open>The merge engine on a store\<close>

text \<open>
  Whether \<^verbatim>\<open>mergeData\<close> changes its arguments, and whether what it returns is a new
  object, is a matter of object identity; for that the merge engine is modelled once
  more on a store. A value is a primitive or a reference to an object of the store; the
  store is the list of the objects allocated so far, an address is a position in it,
  and a new object is put at the end. A call of \<^verbatim>\<open>deepMerge\<close> within \<^verbatim>\<open>deepMerge\<close> uses
  up one unit of \<open>fuel\<close> (the depth of the call stack); with none left the result is
  \<open>None\<close>.
\<close>

datatype hval =
    HUndefined
  | HNull
  | HBool bool
  | HNum int
  | HStr string
  | HFunction string
  | HObjectPrototype
  | HRef nat

datatype hobject =
    HObject "(string \<times> hval) list"
  | HArray "hval list"
  | HDate int
  | HRegExp string

type_synonym heap = "hobject list"

definition alloc :: "heap \<Rightarrow> hobject \<Rightarrow> heap \<times> nat" where
  "alloc h obj = (h @ [obj], length h)"

definition h_isPlainObject :: "heap \<Rightarrow> hval \<Rightarrow> bool" where
  "h_isPlainObject h v =
     (case v of
        HRef a \<Rightarrow> a < length h \<and> (case h ! a of HObject ps \<Rightarrow> True | _ \<Rightarrow> False)
      | HObjectPrototype \<Rightarrow> True
      | _ \<Rightarrow> False)"

text \<open>The own enumerable properties of a plain object.\<close>

definition h_own :: "heap \<Rightarrow> hval \<Rightarrow> (string \<times> hval) list" where
  "h_own h v =
     (case v of
        HRef a \<Rightarrow> if a < length h then (case h ! a of HObject ps \<Rightarrow> ps | _ \<Rightarrow> []) else []
      | _ \<Rightarrow> [])"

text \<open>The read \<^verbatim>\<open>obj[k]\<close> on a plain object, as \<open>js_get\<close>.\<close>

definition h_get :: "heap \<Rightarrow> hval \<Rightarrow> string \<Rightarrow> hval" where
  "h_get h obj k =
     (case obj of
        HObjectPrototype \<Rightarrow>
          if k \<in> set Object_prototype_functions then HFunction k
          else if k = ''__proto__'' then HNull
          else HUndefined
      | _ \<Rightarrow>
          (case map_of (h_own h obj) k of
             Some v \<Rightarrow> v
           | None \<Rightarrow>
               if k \<in> set Object_prototype_functions then HFunction k
               else if k = ''__proto__'' then HObjectPrototype
               else HUndefined))"

text \<open>The assignment \<^verbatim>\<open>obj[k] = v\<close>, which changes the object at address \<open>a\<close> in place.\<close>

definition h_assign :: "heap \<Rightarrow> nat \<Rightarrow> string \<Rightarrow> hval \<Rightarrow> heap" where
  "h_assign h a k v =
     (case h ! a of HObject ps \<Rightarrow> h[a := HObject (js_set ps k v)] | _ \<Rightarrow> h)"

fun deepMerge_h :: "nat \<Rightarrow> heap \<Rightarrow> hval \<Rightarrow> hval \<Rightarrow> (heap \<times> nat) option"
  and deepMerge_h_loop ::
    "nat \<Rightarrow> heap \<Rightarrow> hval \<Rightarrow> hval \<Rightarrow> nat \<Rightarrow> string list \<Rightarrow> (heap \<times> nat) option"
where
  "deepMerge_h 0 h target source = None"
| "deepMerge_h (Suc fuel) h target source =
     (case alloc h (HObject (spread (h_own h target) [])) of
        (h1, result) \<Rightarrow>
          deepMerge_h_loop fuel h1 target source result (map fst (h_own h1 source)))"
| "deepMerge_h_loop fuel h target source result [] = Some (h, result)"
| "deepMerge_h_loop fuel h target source result (key # keys) =
     (let targetVal = h_get h target key; sourceVal = h_get h source key in
      if h_isPlainObject h targetVal \<and> h_isPlainObject h sourceVal
      then (case deepMerge_h fuel h targetVal sourceVal of
              None \<Rightarrow> None
            | Some (h', merged) \<Rightarrow>
                deepMerge_h_loop fuel (h_assign h' result key (HRef merged))
                  target source result keys)
      else deepMerge_h_loop fuel (h_assign h result key sourceVal) target source result keys)"

text \<open>The reducer of the \<^verbatim>\<open>"strict"\<close> case, writing into the object at \<open>acc\<close>.\<close>

definition strict_step_h :: "nat \<Rightarrow> nat \<Rightarrow> heap \<Rightarrow> string \<Rightarrow> heap" where
  "strict_step_h incoming acc h key =
     (if js_in key (h_own h (HRef incoming))
      then h_assign h acc key (h_get h (HRef incoming) key) else h)"

definition mergeData_h ::
  "nat \<Rightarrow> heap \<Rightarrow> nat \<Rightarrow> nat \<Rightarrow> MergeStrategy \<Rightarrow> (heap \<times> nat) option" where
  "mergeData_h fuel h current incoming strategy =
     (case strategy of
        Replace \<Rightarrow> Some (h, incoming)
      | Strict \<Rightarrow>
          (case alloc h (HObject []) of
             (h1, acc) \<Rightarrow>
               let h2 = foldl (strict_step_h incoming acc) h1 (map fst (h_own h1 (HRef current)))
               in Some (alloc h2 (HObject (spread (h_own h2 (HRef acc))
                                            (spread (h_own h2 (HRef current)) [])))))
      | Deep \<Rightarrow> deepMerge_h fuel h (HRef current) (HRef incoming)
      | Merge \<Rightarrow>
          Some (alloc h (HObject (spread (h_own h (HRef incoming))
                                   (spread (h_own h (HRef current)) [])))))"

text \<open>
  A store is closed when every reference in it points into it. The nesting of plain
  objects below a value is at most \<open>d\<close> deep when \<open>nesting_le d\<close> holds; this is so for
  some \<open>d\<close> unless an object contains itself.
\<close>

definition valid_ref :: "heap \<Rightarrow> hval \<Rightarrow> bool" where
  "valid_ref h v = (case v of HRef a \<Rightarrow> a < length h | _ \<Rightarrow> True)"

definition closed :: "heap \<Rightarrow> bool" where
  "closed h \<longleftrightarrow>
     (\<forall>obj \<in> set h.
        case obj of
          HObject ps \<Rightarrow> \<forall>(k, v) \<in> set ps. valid_ref h v
        | HArray xs \<Rightarrow> \<forall>v \<in> set xs. valid_ref h v
        | _ \<Rightarrow> True)"

fun nesting_le :: "nat \<Rightarrow> heap \<Rightarrow> hval \<Rightarrow> bool" where
  "nesting_le 0 h v = (\<not> h_isPlainObject h v)"
| "nesting_le (Suc d) h v = (\<forall>(k, w) \<in> set (h_own h v). nesting_le d h w)"

section \<open>Un-flattening\<close>

text \<open>
  Modelled from the spec: the repository has no inverse of \<^verbatim>\<open>flattenObject\<close>; the
  specification speaks of "un-flattening" a flat object by "dot-path reconstruction".
  \<open>split_path\<close> cuts a key at every dot, \<open>set_path\<close> stores a value under a path of
  keys, creating the objects on the way, and \<open>unflatten\<close> does so for every entry of
  the flat object, in order.
\<close>

fun split_path :: "string \<Rightarrow> string list" where
  "split_path [] = [[]]"
| "split_path (c # cs) =
     (if c = CHR ''.'' then [] # split_path cs
      else (case split_path cs of [] \<Rightarrow> [[c]] | h # t \<Rightarrow> (c # h) # t))"

text \<open>The properties of the object stored under \<open>k\<close>; none when there is no object.\<close>

definition child :: "props \<Rightarrow> string \<Rightarrow> props" where
  "child obj k = (case map_of obj k of Some (JObj sub) \<Rightarrow> sub | _ \<Rightarrow> [])"

fun set_path :: "string list \<Rightarrow> jsval \<Rightarrow> props \<Rightarrow> props" where
  "set_path [] v obj = obj"
| "set_path [k] v obj = AList.update k v obj"
| "set_path (k # ks) v obj = AList.update k (JObj (set_path ks v (child obj k))) obj"

definition unflatten :: "props \<Rightarrow> props" where
  "unflatten flat = fold (\<lambda>(path, v) obj. set_path (split_path path) v obj) flat []"

text \<open>
  The trees on which flattening loses nothing. At every depth the keys are distinct
  (as in any object) and free of dots, a leaf is a primitive, and a nested object is
  not empty.
\<close>

fun is_primitive :: "jsval \<Rightarrow> bool" where
  "is_primitive JUndefined = True"
| "is_primitive JNull = True"
| "is_primitive (JBool b) = True"
| "is_primitive (JNum n) = True"
| "is_primitive (JStr s) = True"
| "is_primitive v = False"

fun tree_ok :: "jsval \<Rightarrow> bool" where
  "tree_ok (JObj ps) =
     (ps \<noteq> [] \<and> distinct (map fst ps) \<and> (\<forall>(k, v) \<in> set ps. CHR ''.'' \<notin> set k \<and> tree_ok v))"
| "tree_ok v = is_primitive v"

text \<open>
  At the top level, in addition, a key with an object value is not the empty string
  and a key with a primitive value is not \<^verbatim>\<open>__proto__\<close>.
\<close>

definition top_ok :: "props \<Rightarrow> bool" where
  "top_ok obj \<longleftrightarrow>
     distinct (map fst obj) \<and>
     (\<forall>(k, v) \<in> set obj. CHR ''.'' \<notin> set k \<and> tree_ok v \<and>
        (if is_primitive v then k \<noteq> ''__proto__'' else k \<noteq> []))"

text \<open>
  A path of keys joined with dots, and the key the flattener builds along a path: the
  \<^verbatim>\<open>newKey\<close> of every level, starting from the empty \<^verbatim>\<open>parentKey\<close>.
\<close>

fun join_path :: "string list \<Rightarrow> string" where
  "join_path [] = []"
| "join_path [k] = k"
| "join_path (k # ks) = k @ ''.'' @ join_path ks"

definition flat_key :: "string list \<Rightarrow> string" where
  "flat_key p =
     foldl (\<lambda>parentKey key. if parentKey \<noteq> [] then parentKey @ ''.'' @ key else key) [] p"

text \<open>
  The leaves of an object, each with the path of keys that leads to it, in the order of
  a depth-first traversal: a nested object is descended into; a \<^verbatim>\<open>RegExp\<close> and
  \<^verbatim>\<open>Object.prototype\<close> are objects without own enumerable properties; every other value,
  an array or a \<^verbatim>\<open>Date\<close> included, is a leaf, whatever it contains.
\<close>

fun leaves :: "string list \<Rightarrow> props \<Rightarrow> (string list \<times> jsval) list" where
  "leaves cs [] = []"
| "leaves cs ((k, v) # rest) =
     (case v of
        JObj qs \<Rightarrow> leaves (cs @ [k]) qs
      | JRegExp r \<Rightarrow> []
      | JObjectPrototype \<Rightarrow> []
      | _ \<Rightarrow> [(cs @ [k], v)]) @ leaves cs rest"

text \<open>For the proofs: writing a leaf, and reading and replacing the object under a path.\<close>

definition write_leaf :: "string list \<times> jsval \<Rightarrow> props \<Rightarrow> props" where
  "write_leaf = (\<lambda>(p, v) result. js_set result (join_path p) v)"

definition assign_leaf :: "string list \<times> jsval \<Rightarrow> props \<Rightarrow> props" where
  "assign_leaf = (\<lambda>(p, v) result. js_set result (flat_key p) v)"

fun sub_at :: "string list \<Rightarrow> props \<Rightarrow> props" where
  "sub_at [] obj = obj"
| "sub_at (c # cs) obj = sub_at cs (child obj c)"

fun put_at :: "string list \<Rightarrow> props \<Rightarrow> props \<Rightarrow> props" where
  "put_at [] new obj = new"
| "put_at (c # cs) new obj = AList.update c (JObj (put_at cs new (child obj c))) obj"

definition store_leaf :: "string list \<times> jsval \<Rightarrow> props \<Rightarrow> props" where
  "store_leaf = (\<lambda>(p, v) obj. set_path p v obj)"

text \<open>The trees the specification speaks of: every leaf, at any depth, is a primitive.\<close>

fun primitive_leaves :: "jsval \<Rightarrow> bool" where
  "primitive_leaves (JObj ps) = (\<forall>(k, v) \<in> set ps. primitive_leaves v)"
| "primitive_leaves v = is_primitive v"

section \<open>Sample inputs\<close>

text \<open>
  The values \<^verbatim>\<open>JSON.parse\<close> gives for the texts of the examples below, and callbacks
  that return or throw whatever they are given.
\<close>

definition sample_JSON_parse :: "string \<Rightarrow> jsval option" where
  \<open>sample_JSON_parse text =
     (if text = ''{"a":[{"__proto__":1}]}''
      then Some (JObj [(''a'', JArr [JObj [(''__proto__'', JNum 1)]])])
      else if text = ''{"a":1}'' then Some (JObj [(''a'', JNum 1)])
      else if text = ''[1]'' then Some (JArr [JNum 1])
      else if text = ''{"valueOf":1}'' then Some (JObj [(''valueOf'', JNum 1)])
      else if text =
        ''{"user":{"first_name":"Jane","last_name":"Doe","contact":{"email":"j@x.com"}}}''
      then Some (JObj [(''user'', JObj [(''first_name'', JStr ''Jane''),
                                         (''last_name'', JStr ''Doe''),
                                         (''contact'', JObj [(''email'', JStr ''j@x.com'')])])])
      else None)\<close>

definition no_options :: options where
  "no_options =
     \<lparr>mergeStrategy = None, fieldMap = None, flatten = None, transform = None,
      validate = None, onBeforeFill = None, onAfterFill = None, onError = None,
      onSuccess = None\<rparr>"

definition returns :: "'b \<Rightarrow> 'a \<Rightarrow> thrown + 'b" where
  "returns y x = Inr y"

definition returns_normally :: "'a \<Rightarrow> thrown option" where
  "returns_normally x = None"

definition throws :: "string \<Rightarrow> 'a \<Rightarrow> thrown option" where
  "throws msg x = Some (Thrown_Error msg)"

definition fails :: "string \<Rightarrow> 'a \<Rightarrow> thrown + 'b" where
  "fails msg x = Inl (Thrown_Error msg)"

text \<open>
  A store with \<open>current = {a: {p: 1}, x: 1}\<close> at address 0 and
  \<open>incoming = {a: {q: 2}, l: [1]}\<close> at address 1.
\<close>

definition sample_heap :: heap where
  "sample_heap =
     [HObject [(''a'', HRef 2), (''x'', HNum 1)],
      HObject [(''a'', HRef 3), (''l'', HRef 4)],
      HObject [(''p'', HNum 1)],
      HObject [(''q'', HNum 2)],
      HArray [HNum 1]]"

section \<open>Properties of the object operations\<close>

lemma spread_Cons: "spread ((k, v) # src) dst = spread src (AList.update k v dst)"
  by (simp add: spread_def)

lemma spread_Nil: "spread [] dst = dst"
  by (simp add: spread_def)

lemma map_of_spread:
  "distinct (map fst src) \<Longrightarrow> map_of (spread src dst) = map_of dst ++ map_of src"
proof (induction src arbitrary: dst)
  case Nil
  then show ?case by (simp add: spread_Nil)
next
  case (Cons p src)
  obtain k v where p: "p = (k, v)" by (cases p)
  from Cons.prems p have fresh: "k \<notin> dom (map_of src)" and d: "distinct (map fst src)"
    by (simp_all add: dom_map_of_conv_image_fst)
  have "map_of (spread (p # src) dst) = map_of (AList.update k v dst) ++ map_of src"
    using Cons.IH [OF d] by (simp only: p spread_Cons)
  also have "\<dots> = (map_of dst)(k \<mapsto> v) ++ map_of src"
    by (simp only: update_conv')
  also have "\<dots> = (map_of dst ++ map_of src)(k \<mapsto> v)"
    using fresh by (rule map_add_upd_left)
  also have "\<dots> = map_of dst ++ (map_of src)(k \<mapsto> v)"
    by (simp only: map_add_upd)
  also have "(map_of src)(k \<mapsto> v) = map_of (p # src)"
    by (simp only: p map_of.simps fst_conv snd_conv)
  finally show ?case .
qed

lemma keys_spread: "fst ` set (spread src dst) = fst ` set dst \<union> fst ` set src"
proof (induction src arbitrary: dst)
  case Nil
  then show ?case by (simp add: spread_Nil)
next
  case (Cons p src)
  then show ?case by (cases p) (auto simp: spread_Cons dom_update)
qed

lemma spread_fresh:
  "distinct (map fst src) \<Longrightarrow> fst ` set src \<inter> fst ` set dst = {} \<Longrightarrow> spread src dst = dst @ src"
proof (induction src arbitrary: dst)
  case Nil
  then show ?case by (simp add: spread_Nil)
next
  case (Cons p src)
  obtain k v where p: "p = (k, v)" by (cases p)
  from Cons.prems p have k: "k \<notin> fst ` set dst" by auto
  have upd: "AList.update k v dst = dst @ [(k, v)]" using k
    by (induction dst) auto
  from Cons.prems p have "fst ` set src \<inter> fst ` set (dst @ [(k, v)]) = {}"
    by (auto simp: image_iff)
  with Cons.IH [of "dst @ [(k, v)]"] Cons.prems p upd show ?case
    by (simp add: spread_Cons)
qed

lemma spread_copy: "distinct (map fst src) \<Longrightarrow> spread src [] = src"
  using spread_fresh [of src "[]"] by simp

lemma spread_keys_inplace:
  "fst ` set src \<subseteq> fst ` set dst \<Longrightarrow> map fst (spread src dst) = map fst dst"
proof (induction src arbitrary: dst)
  case Nil
  then show ?case by (simp add: spread_Nil)
next
  case (Cons p src)
  obtain k v where p: "p = (k, v)" by (cases p)
  from Cons.prems p have k: "k \<in> fst ` set dst" by auto
  then have keys: "map fst (AList.update k v dst) = map fst dst"
    by (simp add: update_keys)
  from Cons.prems p have "fst ` set src \<subseteq> fst ` set (AList.update k v dst)"
    by (auto simp: dom_update)
  with Cons.IH [of "AList.update k v dst"] keys p show ?case
    by (simp add: spread_Cons)
qed

lemma keys_js_set: "fst ` set (js_set ps k v) \<subseteq> insert k (fst ` set ps)"
  by (auto simp: js_set_def dom_update)

lemma map_of_js_set:
  "map_of (js_set ps k v) =
     (if k = ''__proto__'' \<and> k \<notin> fst ` set ps then map_of ps else (map_of ps)(k \<mapsto> v))"
  by (auto simp: js_set_def update_conv')

lemma distinct_js_set: "distinct (map fst ps) \<Longrightarrow> distinct (map fst (js_set ps k v))"
  by (simp add: js_set_def distinct_update)

lemma keys_js_set_iff:
  "k \<in> fst ` set (js_set ps a v) \<longleftrightarrow> k \<in> fst ` set ps \<or> (a = k \<and> k \<noteq> ''__proto__'')"
  by (auto simp: js_set_def dom_update)

lemma map_of_js_set_same:
  "map_of (js_set ps k v) k = (if k = ''__proto__'' \<and> k \<notin> fst ` set ps then None else Some v)"
  by (auto simp: js_set_def update_conv' map_of_eq_None_iff)

lemma map_of_js_set_other: "a \<noteq> k \<Longrightarrow> map_of (js_set ps a v) k = map_of ps k"
  by (simp add: js_set_def update_conv')

lemma keys_js_set_other:
  "a \<noteq> k \<Longrightarrow> k \<in> fst ` set (js_set ps a v) \<longleftrightarrow> k \<in> fst ` set ps"
  by (auto simp: js_set_def dom_update)

section \<open>The safe parser rejects exactly the unsafe texts\<close>

lemma last_string_of_nat: "last (string_of_nat n) \<in> set ''0123456789''"
proof -
  have d: "digit_char d \<in> set ''0123456789''" for d
    unfolding digit_char_def by (rule nth_mem) simp
  show ?thesis
    by (subst string_of_nat.simps) (simp add: d del: string_of_nat.simps set_simps)
qed

lemma string_of_nat_not_dangerous: "string_of_nat i \<notin> DANGEROUS_KEYS"
proof
  assume "string_of_nat i \<in> DANGEROUS_KEYS"
  then have "last (string_of_nat i) \<in> {CHR ''_'', CHR ''r'', CHR ''e''}"
    unfolding DANGEROUS_KEYS_def by auto
  with last_string_of_nat [of i] show False by auto
qed

lemma scan_isl:
  "isl (assertNoPrototypePollution v) = contains_reserved_key v"
  "isl (assertNoPrototypePollution_props ps) =
     (\<exists>(k, v) \<in> set ps. k \<in> DANGEROUS_KEYS \<or> contains_reserved_key v)"
  "isl (assertNoPrototypePollution_elems i xs) = (\<exists>v \<in> set xs. contains_reserved_key v)"
proof (induction v and ps and i xs
    rule: assertNoPrototypePollution_assertNoPrototypePollution_props_assertNoPrototypePollution_elems.induct)
  case (5 key v rest)
  then show ?case
    by (cases "key \<in> DANGEROUS_KEYS")
       (auto split: sum.splits)
next
  case (7 i v rest)
  then show ?case
    by (auto simp: string_of_nat_not_dangerous split: sum.splits simp del: string_of_nat.simps)
qed simp_all

lemma scan_code:
  "assertNoPrototypePollution v = Inl e \<Longrightarrow> code e = PARSE_ERROR"
  "assertNoPrototypePollution_props ps = Inl e \<Longrightarrow> code e = PARSE_ERROR"
  "assertNoPrototypePollution_elems i xs = Inl e \<Longrightarrow> code e = PARSE_ERROR"
proof (induction v and ps and i xs
    rule: assertNoPrototypePollution_assertNoPrototypePollution_props_assertNoPrototypePollution_elems.induct)
  case (5 key v rest)
  then show ?case
    by (cases "key \<in> DANGEROUS_KEYS")
       (auto simp: dangerous_key_error_def split: sum.splits)
next
  case (7 i v rest)
  then show ?case
    by (auto simp: string_of_nat_not_dangerous split: sum.splits simp del: string_of_nat.simps)
qed simp_all

lemma parseJson_outcome:
  "((\<exists>e. parseJson JSON_parse text = Inl e \<and> code e = PARSE_ERROR) \<longleftrightarrow>
      (JSON_parse text = None \<or>
       (\<exists>v. JSON_parse text = Some v \<and>
            (\<not> (typeof v = ''object'' \<and> v \<noteq> JNull \<and> \<not> Array_isArray v) \<or>
             contains_reserved_key v)))) \<and>
   (\<forall>e. parseJson JSON_parse text = Inl e \<longrightarrow> code e = PARSE_ERROR) \<and>
   (\<forall>v. JSON_parse text = Some v \<and> typeof v = ''object'' \<and> v \<noteq> JNull \<and> \<not> Array_isArray v \<and>
        \<not> contains_reserved_key v \<longrightarrow> parseJson JSON_parse text = Inr v)"
proof (cases "JSON_parse text")
  case None
  then show ?thesis by (simp add: parseJson_def)
next
  case (Some v)
  show ?thesis
  proof (cases "typeof v \<noteq> ''object'' \<or> v = JNull \<or> Array_isArray v")
    case True
    with Some show ?thesis by (auto simp: parseJson_def)
  next
    case False
    show ?thesis
    proof (cases "assertNoPrototypePollution v")
      case (Inl e)
      with scan_isl(1) [of v] have "contains_reserved_key v" by simp
      with Some False Inl scan_code(1) [OF Inl] show ?thesis
        by (auto simp: parseJson_def)
    next
      case (Inr u)
      with scan_isl(1) [of v] have "\<not> contains_reserved_key v" by simp
      with Some False Inr show ?thesis
        by (auto simp: parseJson_def)
    qed
  qed
qed

text \<open>
  C1. \<^verbatim>\<open>parseJson(text)\<close> fails, with an error of kind \<^verbatim>\<open>PARSE_ERROR\<close>, exactly when the
  text is not valid JSON, or the top-level value is not a non-null, non-array object, or
  the parsed value contains a reserved key at some depth (also in objects below arrays);
  every error it raises has that kind; otherwise it returns the parsed object. The
  reserved keys are \<^verbatim>\<open>__proto__\<close>, \<^verbatim>\<open>constructor\<close> and \<^verbatim>\<open>prototype\<close>.
\<close>

theorem parseJson_fails_iff:
  "((\<exists>e. parseJson JSON_parse text = Inl e \<and> code e = PARSE_ERROR) \<longleftrightarrow>
      (JSON_parse text = None \<or>
       (\<exists>v. JSON_parse text = Some v \<and>
            (\<not> (typeof v = ''object'' \<and> v \<noteq> JNull \<and> \<not> Array_isArray v) \<or>
             contains_reserved_key v)))) \<and>
   (\<forall>e. parseJson JSON_parse text = Inl e \<longrightarrow> code e = PARSE_ERROR) \<and>
   (\<forall>v. JSON_parse text = Some v \<and> typeof v = ''object'' \<and> v \<noteq> JNull \<and> \<not> Array_isArray v \<and>
        \<not> contains_reserved_key v \<longrightarrow> parseJson JSON_parse text = Inr v) \<and>
   DANGEROUS_KEYS = {''__proto__'', ''constructor'', ''prototype''}"
proof -
  note parseJson_outcome [of JSON_parse "text"]
  moreover have "DANGEROUS_KEYS = {''__proto__'', ''constructor'', ''prototype''}"
    by (rule DANGEROUS_KEYS_def)
  ultimately show ?thesis by blast
qed

theorem parseJson_fails_iff_witness:
  \<open>(\<exists>e. parseJson sample_JSON_parse ''{"a":[{"__proto__":1}]}'' = Inl e \<and>
        code e = PARSE_ERROR) \<and>
   (\<exists>e. parseJson sample_JSON_parse ''[1]'' = Inl e \<and> code e = PARSE_ERROR) \<and>
   (\<exists>e. parseJson sample_JSON_parse ''{'' = Inl e \<and> code e = PARSE_ERROR) \<and>
   parseJson sample_JSON_parse ''{"a":1}'' = Inr (JObj [(''a'', JNum 1)])\<close>
proof -
  have p1: \<open>sample_JSON_parse ''{"a":[{"__proto__":1}]}'' =
              Some (JObj [(''a'', JArr [JObj [(''__proto__'', JNum 1)]])])\<close>
    by code_simp
  have p2: \<open>sample_JSON_parse ''[1]'' = Some (JArr [JNum 1])\<close>
    by code_simp
  have p3: \<open>sample_JSON_parse ''{'' = None\<close>
    by code_simp
  have p4: \<open>sample_JSON_parse ''{"a":1}'' = Some (JObj [(''a'', JNum 1)])\<close>
    by code_simp
  have bad: "contains_reserved_key (JObj [(''a'', JArr [JObj [(''__proto__'', JNum 1)]])])"
    by (simp add: DANGEROUS_KEYS_def)
  have good: "\<not> contains_reserved_key (JObj [(''a'', JNum 1)])"
    by (simp add: DANGEROUS_KEYS_def)
  from bad p1 parseJson_fails_iff [of sample_JSON_parse \<open>''{"a":[{"__proto__":1}]}''\<close>]
  have 1: \<open>\<exists>e. parseJson sample_JSON_parse ''{"a":[{"__proto__":1}]}'' = Inl e \<and>
             code e = PARSE_ERROR\<close>
    by simp
  from p2 parseJson_fails_iff [of sample_JSON_parse \<open>''[1]''\<close>]
  have 2: \<open>\<exists>e. parseJson sample_JSON_parse ''[1]'' = Inl e \<and> code e = PARSE_ERROR\<close>
    by simp
  from p3 parseJson_fails_iff [of sample_JSON_parse \<open>''{''\<close>]
  have 3: \<open>\<exists>e. parseJson sample_JSON_parse ''{'' = Inl e \<and> code e = PARSE_ERROR\<close>
    by simp
  from good p4 parseJson_fails_iff [of sample_JSON_parse \<open>''{"a":1}''\<close>]
  have 4: \<open>parseJson sample_JSON_parse ''{"a":1}'' = Inr (JObj [(''a'', JNum 1)])\<close>
    by simp
  from 1 2 3 4 show ?thesis by simp
qed

section \<open>Replace\<close>

text \<open>
  C4. Under the strategy \<^verbatim>\<open>"replace"\<close>, \<^verbatim>\<open>mergeData\<close> returns \<open>incoming\<close> itself, whatever
  \<open>current\<close> is: every property of \<open>incoming\<close> is there with its value and nothing of
  \<open>current\<close> survives.
\<close>

theorem mergeData_replace: "mergeData current incoming Replace = incoming"
  by (simp add: mergeData_def)


section \<open>Strict merge\<close>

text \<open>
  The exact behaviour of the \<^verbatim>\<open>"strict"\<close> case on objects with distinct keys: the result
  has the keys of \<open>current\<close>, in the same order; a key takes the value the read
  \<^verbatim>\<open>incoming[key]\<close> gives whenever \<^verbatim>\<open>key in incoming\<close> holds, which is also the case for
  the names inherited from \<^verbatim>\<open>Object.prototype\<close>.
\<close>

lemma keys_strict_fold:
  "fst ` set (foldl (strict_step incoming) acc ks) \<subseteq> fst ` set acc \<union> set ks"
proof (induction ks arbitrary: acc)
  case Nil
  then show ?case by simp
next
  case (Cons k ks)
  have "fst ` set (strict_step incoming acc k) \<subseteq> insert k (fst ` set acc)"
    using keys_js_set [of acc k] by (auto simp: strict_step_def)
  with Cons.IH [of "strict_step incoming acc k"] show ?case by auto
qed

lemma distinct_strict_fold:
  "distinct (map fst acc) \<Longrightarrow> distinct (map fst (foldl (strict_step incoming) acc ks))"
  by (induction ks arbitrary: acc) (auto simp: strict_step_def distinct_js_set)

lemma keys_strict_step:
  "k \<in> fst ` set (strict_step incoming acc a) \<longleftrightarrow>
     k \<in> fst ` set acc \<or> (a = k \<and> js_in k incoming \<and> k \<noteq> ''__proto__'')"
  by (auto simp: strict_step_def js_set_def dom_update)

lemma map_of_strict_step:
  "map_of (strict_step incoming acc a) k =
     (if a = k \<and> js_in k incoming \<and> (k \<noteq> ''__proto__'' \<or> k \<in> fst ` set acc)
      then Some (js_get (JObj incoming) k) else map_of acc k)"
  by (auto simp: strict_step_def js_set_def update_conv')

lemma map_of_strict_fold:
  "map_of (foldl (strict_step incoming) acc ks) k =
     (if k \<in> set ks \<and> js_in k incoming \<and> (k \<noteq> ''__proto__'' \<or> k \<in> fst ` set acc)
      then Some (js_get (JObj incoming) k) else map_of acc k)"
proof (induction ks arbitrary: acc)
  case Nil
  then show ?case by simp
next
  case (Cons a ks)
  have "map_of (foldl (strict_step incoming) acc (a # ks)) k =
          map_of (foldl (strict_step incoming) (strict_step incoming acc a) ks) k"
    by simp
  also have "\<dots> =
     (if k \<in> set ks \<and> js_in k incoming \<and>
         (k \<noteq> ''__proto__'' \<or> k \<in> fst ` set (strict_step incoming acc a))
      then Some (js_get (JObj incoming) k) else map_of (strict_step incoming acc a) k)"
    by (rule Cons.IH)
  also have "\<dots> =
     (if k \<in> set (a # ks) \<and> js_in k incoming \<and> (k \<noteq> ''__proto__'' \<or> k \<in> fst ` set acc)
      then Some (js_get (JObj incoming) k) else map_of acc k)"
    by (cases "a = k"; cases "k \<in> set ks"; cases "js_in k incoming"; cases "k \<in> fst ` set acc")
       (auto simp add: keys_strict_step map_of_strict_step)
  finally show ?case .
qed

lemma mergeData_strict_keys:
  assumes "distinct (map fst current)"
  shows "map fst (mergeData current incoming Strict) = map fst current"
proof -
  have "fst ` set (foldl (strict_step incoming) [] (map fst current)) \<subseteq> fst ` set current"
    using keys_strict_fold [of incoming "[]" "map fst current"] by simp
  then show ?thesis
    using assms by (simp add: mergeData_def spread_copy spread_keys_inplace)
qed

lemma mergeData_strict_lookup:
  assumes "distinct (map fst current)" and "k \<in> fst ` set current"
  shows "map_of (mergeData current incoming Strict) k =
           (if js_in k incoming \<and> k \<noteq> ''__proto__''
            then Some (js_get (JObj incoming) k) else map_of current k)"
proof -
  let ?filtered = "foldl (strict_step incoming) [] (map fst current)"
  have d: "distinct (map fst ?filtered)"
    by (rule distinct_strict_fold) simp
  have "map_of (mergeData current incoming Strict) k = (map_of current ++ map_of ?filtered) k"
    using assms(1) d by (simp add: mergeData_def spread_copy map_of_spread)
  also have "\<dots> = (if js_in k incoming \<and> k \<noteq> ''__proto__''
            then Some (js_get (JObj incoming) k) else map_of current k)"
    using assms(2) by (auto simp: map_add_def map_of_strict_fold)
  finally show ?thesis .
qed

lemma mergeData_strict_own_keys:
  assumes "distinct (map fst current)" and "k \<in> fst ` set current"
    and "k \<notin> set Object_prototype_functions" and "k \<noteq> ''__proto__''"
  shows "map_of (mergeData current incoming Strict) k =
           (if k \<in> fst ` set incoming then map_of incoming k else map_of current k)"
  using assms mergeData_strict_lookup [OF assms(1,2), of incoming]
  by (auto simp: js_in_def map_of_eq_None_iff split: option.splits)

lemma mergeData_strict_scenario:
  "mergeData [(''name'', JStr ''''), (''email'', JStr '''')]
     [(''name'', JStr ''Bob''), (''age'', JNum 30)] Strict
     = [(''name'', JStr ''Bob''), (''email'', JStr '''')]"
  by code_simp

text \<open>
  C2. With \<open>current = {constructor: "", name: ""}\<close> and \<open>incoming = {name: "Bob"}\<close> the
  strict merge binds \<open>constructor\<close> neither to a value of \<open>incoming\<close> (which has no such
  key) nor to the value of \<open>current\<close>: the test \<^verbatim>\<open>key in incoming\<close> finds the member
  inherited from \<^verbatim>\<open>Object.prototype\<close>, and the result holds that function. And when both
  objects have an own property \<^verbatim>\<open>__proto__\<close> (as \<^verbatim>\<open>JSON.parse\<close> creates it), the result
  keeps the value of \<open>current\<close>, not that of \<open>incoming\<close>: the reducer's assignment reaches
  the inherited setter.
\<close>

theorem mergeData_strict_inherited_key:
  "mergeData [(''constructor'', JStr ''''), (''name'', JStr '''')] [(''name'', JStr ''Bob'')] Strict
     = [(''constructor'', JFunction ''constructor''), (''name'', JStr ''Bob'')] \<and>
   mergeData [(''__proto__'', JNum 1)] [(''__proto__'', JNum 2)] Strict = [(''__proto__'', JNum 1)]"
  by code_simp


section \<open>Deep merge\<close>

text \<open>
  The exact behaviour of \<^verbatim>\<open>deepMerge\<close> on objects with distinct keys, key by key. A key
  of \<open>source\<close> is bound to the recursive merge when both \<^verbatim>\<open>target[key]\<close> and
  \<^verbatim>\<open>source[key]\<close> are plain objects and to \<^verbatim>\<open>source[key]\<close> otherwise, except for the key
  \<^verbatim>\<open>__proto__\<close> when \<open>target\<close> has no own property of that name; the other keys of
  \<open>target\<close> keep their value. The same holds for the recursive call, at every depth.
\<close>

lemma map_of_deepMerge_loop:
  "distinct (map fst entries) \<Longrightarrow>
   map_of (deepMerge_loop target entries result) k =
     (case map_of entries k of
        None \<Rightarrow> map_of result k
      | Some sourceVal \<Rightarrow>
          if k = ''__proto__'' \<and> k \<notin> fst ` set result then None
          else Some (if isPlainObject (js_get target k) \<and> isPlainObject sourceVal
                     then JObj (deepMerge (js_get target k) sourceVal) else sourceVal))"
proof (induction entries arbitrary: result)
  case Nil
  then show ?case by simp
next
  case (Cons p entries)
  obtain key sourceVal where p: "p = (key, sourceVal)" by (cases p)
  define v where "v = (if isPlainObject (js_get target key) \<and> isPlainObject sourceVal
                     then JObj (deepMerge (js_get target key) sourceVal) else sourceVal)"
  have step: "deepMerge_loop target (p # entries) result =
                deepMerge_loop target entries (js_set result key v)"
    by (simp add: p v_def Let_def)
  from Cons.prems p have d: "distinct (map fst entries)" and fresh: "map_of entries key = None"
    by (simp_all add: map_of_eq_None_iff)
  show ?case
  proof (cases "k = key")
    case True
    then have key: "key = k" by simp
    have l: "map_of (deepMerge_loop target (p # entries) result) k = map_of (js_set result k v) k"
      unfolding step Cons.IH [OF d] key using fresh [unfolded key] by simp
    have r: "map_of (p # entries) k = Some sourceVal"
      using p key by simp
    show ?thesis
      unfolding l r map_of_js_set_same v_def key option.case ..
  next
    case False
    then have other: "map_of (js_set result key v) k = map_of result k"
      "k \<in> fst ` set (js_set result key v) \<longleftrightarrow> k \<in> fst ` set result"
      by (simp_all add: map_of_js_set_other keys_js_set_other)
    have r: "map_of (p # entries) k = map_of entries k"
      using False p by simp
    show ?thesis
      unfolding step Cons.IH [OF d] other r ..
  qed
qed

lemma deepMerge_lookup:
  assumes "distinct (map fst (own_entries target))" and "distinct (map fst (own_entries source))"
  shows "map_of (deepMerge target source) k =
     (case map_of (own_entries source) k of
        None \<Rightarrow> map_of (own_entries target) k
      | Some sourceVal \<Rightarrow>
          if k = ''__proto__'' \<and> k \<notin> fst ` set (own_entries target) then None
          else Some (if isPlainObject (js_get target k) \<and> isPlainObject sourceVal
                     then JObj (deepMerge (js_get target k) sourceVal) else sourceVal))"
  using assms by (simp add: map_of_deepMerge_loop spread_copy)

lemma mergeData_deep_lookup:
  assumes "distinct (map fst current)" and "distinct (map fst incoming)"
  shows "map_of (mergeData current incoming Deep) k =
     (case map_of incoming k of
        None \<Rightarrow> map_of current k
      | Some sourceVal \<Rightarrow>
          if k = ''__proto__'' \<and> k \<notin> fst ` set current then None
          else Some (if isPlainObject (js_get (JObj current) k) \<and> isPlainObject sourceVal
                     then JObj (deepMerge (js_get (JObj current) k) sourceVal)
                     else sourceVal))"
  using deepMerge_lookup [of "JObj current" "JObj incoming" k] assms
  unfolding own_entries.simps mergeData_def by simp

lemma mergeData_deep_scenario:
  "mergeData [(''a'', JObj [(''x'', JNum 1)]), (''l'', JArr [JNum 1])]
     [(''a'', JObj [(''y'', JNum 2)]), (''l'', JArr [JNum 2])] Deep
   = [(''a'', JObj [(''x'', JNum 1), (''y'', JNum 2)]), (''l'', JArr [JNum 2])]"
  by code_simp

text \<open>
  C3. A key \<^verbatim>\<open>__proto__\<close> that only \<open>incoming\<close> has is not kept by the deep merge,
  neither with a primitive value nor with an object: the assignment
  \<^verbatim>\<open>result["__proto__"] = ...\<close> reaches the setter inherited from \<^verbatim>\<open>Object.prototype\<close> and
  creates no property.
\<close>

theorem mergeData_deep_proto_key:
  "mergeData [] [(''__proto__'', JNum 5)] Deep = [] \<and>
   mergeData [] [(''__proto__'', JObj [(''isAdmin'', JBool True)])] Deep = []"
  by code_simp


section \<open>The merge engine does not change its arguments\<close>

text \<open>
  On the store, a call of \<^verbatim>\<open>deepMerge\<close> leaves every object that existed before as it
  was and returns an object allocated during the call; the loop writes only into that
  object. With a closed store and a bound on the nesting of \<open>source\<close>, the fuel suffices
  and the call returns.
\<close>

lemma take_alloc: "take (length h) (fst (alloc h obj)) = h" "snd (alloc h obj) = length h"
  "length (fst (alloc h obj)) = Suc (length h)"
  by (simp_all add: alloc_def)

lemma length_h_assign [simp]: "length (h_assign h a k v) = length h"
  by (simp add: h_assign_def split: hobject.splits)

lemma take_h_assign: "n \<le> a \<Longrightarrow> take n (h_assign h a k v) = take n h"
  by (simp add: h_assign_def split: hobject.splits)

lemma deepMerge_h_frame:
  "deepMerge_h fuel h target source = Some (h', r) \<Longrightarrow>
     take (length h) h' = h \<and> length h \<le> r \<and> r < length h'"
  "deepMerge_h_loop fuel h target source result keys = Some (h', r) \<Longrightarrow> n \<le> result \<Longrightarrow>
     result < length h \<Longrightarrow>
     take n h' = take n h \<and> r = result \<and> length h \<le> length h'"
proof (induction fuel h target source and fuel h target source result keys
    arbitrary: h' r and h' r n rule: deepMerge_h_deepMerge_h_loop.induct)
  case (1 h target source)
  then show ?case by simp
next
  case (2 fuel h target source)
  let ?h1 = "h @ [HObject (spread (h_own h target) [])]"
  from "2.prems" have run: "deepMerge_h_loop fuel ?h1 target source (length h)
      (map fst (h_own ?h1 source)) = Some (h', r)"
    by (simp add: alloc_def)
  have "take (length h) h' = take (length h) ?h1 \<and> r = length h \<and> length ?h1 \<le> length h'"
    by (rule "2.IH" [of ?h1 "length h", OF _ run]) (simp_all add: alloc_def)
  then show ?case by simp
next
  case (3 fuel h target source result)
  then show ?case by simp
next
  case (4 fuel h target source result key keys)
  let ?tv = "h_get h target key" and ?sv = "h_get h source key"
  show ?case
  proof (cases "h_isPlainObject h ?tv \<and> h_isPlainObject h ?sv")
    case True
    with "4.prems"(1) obtain h1 m where
      inner: "deepMerge_h fuel h ?tv ?sv = Some (h1, m)" and
      rest: "deepMerge_h_loop fuel (h_assign h1 result key (HRef m)) target source result keys
               = Some (h', r)"
      by (auto simp: Let_def split: option.splits)
    from "4.IH"(1) [OF refl refl True inner]
    have f1: "take (length h) h1 = h" "length h \<le> m" "m < length h1" by simp_all
    then have len: "length h \<le> length h1" by simp
    have "take n h' = take n (h_assign h1 result key (HRef m)) \<and> r = result \<and>
            length (h_assign h1 result key (HRef m)) \<le> length h'"
      using "4.prems"(3) len
      by (intro "4.IH"(2) [OF refl refl True inner refl rest "4.prems"(2)]) simp
    moreover have "take n (h_assign h1 result key (HRef m)) = take n h1"
      using "4.prems"(2) by (rule take_h_assign)
    moreover have "take n h1 = take n h"
      using f1(1) "4.prems"(2,3) by (metis le_trans less_imp_le min.absorb1 take_take)
    ultimately show ?thesis using len by simp
  next
    case False
    with "4.prems"(1) have rest:
      "deepMerge_h_loop fuel (h_assign h result key ?sv) target source result keys = Some (h', r)"
      by (auto simp: Let_def)
    have "take n h' = take n (h_assign h result key ?sv) \<and> r = result \<and>
            length (h_assign h result key ?sv) \<le> length h'"
      using "4.prems"(3)
      by (intro "4.IH"(3) [OF refl refl False rest "4.prems"(2)]) simp
    then show ?thesis
      using "4.prems"(2) by (simp add: take_h_assign)
  qed
qed

lemma strict_fold_frame:
  "n \<le> acc \<Longrightarrow>
   take n (foldl (strict_step_h incoming acc) h keys) = take n h \<and>
   length (foldl (strict_step_h incoming acc) h keys) = length h"
proof (induction keys arbitrary: h)
  case Nil
  then show ?case by simp
next
  case (Cons key keys)
  have "take n (strict_step_h incoming acc h key) = take n h"
    "length (strict_step_h incoming acc h key) = length h"
    using Cons.prems by (simp_all add: strict_step_h_def take_h_assign)
  with Cons.IH [OF Cons.prems, of "strict_step_h incoming acc h key"] show ?case
    by simp
qed

lemma take_length_le:
  assumes "take (length a) b = a"
  shows "length a \<le> length b"
proof -
  from assms have "length (take (length a) b) = length a" by simp
  then show ?thesis by simp
qed

lemma take_extension_trans:
  assumes "take (length h) h1 = h" and "take (length h0) h = h0"
  shows "take (length h0) h1 = h0"
proof -
  have "length h0 \<le> length h" using assms(2) by (rule take_length_le)
  then have "take (length h0) h1 = take (length h0) (take (length h) h1)"
    by (simp add: min.absorb1)
  with assms show ?thesis by simp
qed

lemma nth_extension:
  "take (length h0) h = h0 \<Longrightarrow> a < length h0 \<Longrightarrow> h ! a = h0 ! a \<and> a < length h"
  by (metis length_take min_less_iff_conj nth_take)

lemma h_own_extension:
  "take (length h0) h = h0 \<Longrightarrow> valid_ref h0 v \<Longrightarrow> h_own h v = h_own h0 v"
  using nth_extension [of h0 h]
  by (cases v) (auto simp: h_own_def valid_ref_def)

lemma h_isPlainObject_extension:
  "take (length h0) h = h0 \<Longrightarrow> valid_ref h0 v \<Longrightarrow> h_isPlainObject h v = h_isPlainObject h0 v"
  using nth_extension [of h0 h]
  by (cases v) (auto simp: h_isPlainObject_def valid_ref_def)

lemma h_get_extension:
  "take (length h0) h = h0 \<Longrightarrow> valid_ref h0 v \<Longrightarrow> h_get h v k = h_get h0 v k"
proof -
  assume "take (length h0) h = h0" "valid_ref h0 v"
  then have "h_own h v = h_own h0 v" by (rule h_own_extension)
  then show ?thesis unfolding h_get_def by (simp only:)
qed

lemma h_own_HRef:
  "h_own h (HRef a) = (if a < length h then (case h ! a of HObject ps \<Rightarrow> ps | _ \<Rightarrow> []) else [])"
  by (simp add: h_own_def)

lemma closed_own:
  assumes "closed h0" and "(k, w) \<in> set (h_own h0 v)"
  shows "valid_ref h0 w"
proof (cases v)
  case (HRef a)
  show ?thesis
  proof (cases "a < length h0")
    case False
    with assms(2) HRef show ?thesis by (simp add: h_own_HRef)
  next
    case True
    show ?thesis
    proof (cases "h0 ! a")
      case (HObject ps)
      with True assms(2) HRef have "(k, w) \<in> set ps" by (simp add: h_own_HRef)
      moreover from True HObject have "HObject ps \<in> set h0" by (metis nth_mem)
      ultimately show ?thesis using assms(1) by (fastforce simp: closed_def)
    qed (insert True assms(2) HRef, simp_all add: h_own_HRef)
  qed
qed (insert assms(2), simp_all add: h_own_def)

lemma h_get_own:
  "k \<in> fst ` set (h_own h0 v) \<Longrightarrow> v \<noteq> HObjectPrototype \<Longrightarrow>
     (k, h_get h0 v k) \<in> set (h_own h0 v)"
proof -
  assume k: "k \<in> fst ` set (h_own h0 v)" and v: "v \<noteq> HObjectPrototype"
  then obtain w where "map_of (h_own h0 v) k = Some w"
    by (cases "map_of (h_own h0 v) k") (auto simp: map_of_eq_None_iff)
  moreover from this have "(k, w) \<in> set (h_own h0 v)" by (rule map_of_SomeD)
  ultimately show ?thesis using v by (cases v) (simp_all add: h_get_def)
qed

lemma h_own_prototype [simp]: "h_own h HObjectPrototype = []"
  by (simp add: h_own_def)

lemma deepMerge_h_loop_returns:
  assumes ext: "take (length h0) h = h0" and res: "length h0 \<le> result" "result < length h"
    and src: "valid_ref h0 source" "set keys \<subseteq> fst ` set (h_own h0 source)"
    and rec: "\<And>k w h2 t2. (k, w) \<in> set (h_own h0 source) \<Longrightarrow> take (length h0) h2 = h0 \<Longrightarrow>
                h_isPlainObject h2 w \<Longrightarrow> deepMerge_h fuel h2 t2 w \<noteq> None"
  shows "deepMerge_h_loop fuel h target source result keys \<noteq> None"
  using ext res(2) src(2)
proof (induction keys arbitrary: h)
  case Nil
  then show ?case by simp
next
  case (Cons key keys)
  let ?tv = "h_get h target key" and ?sv = "h_get h source key"
  from Cons.prems(3) have key: "key \<in> fst ` set (h_own h0 source)" and
    keys: "set keys \<subseteq> fst ` set (h_own h0 source)" by simp_all
  then have "source \<noteq> HObjectPrototype" by auto
  from h_get_own [OF key this] have own: "(key, h_get h0 source key) \<in> set (h_own h0 source)" .
  have sv: "?sv = h_get h0 source key"
    using Cons.prems(1) src(1) by (rule h_get_extension)
  show ?case
  proof (cases "h_isPlainObject h ?tv \<and> h_isPlainObject h ?sv")
    case True
    with rec [OF own Cons.prems(1), of ?tv] sv obtain h1 m where
      inner: "deepMerge_h fuel h ?tv ?sv = Some (h1, m)"
      by (cases "deepMerge_h fuel h ?tv ?sv") auto
    from deepMerge_h_frame(1) [OF inner] have f: "take (length h) h1 = h" "m < length h1"
      by simp_all
    then have len: "length h \<le> length h1"
      by (intro take_length_le)
    have "take (length h0) h1 = h0"
      using f(1) Cons.prems(1) by (rule take_extension_trans)
    then have "take (length h0) (h_assign h1 result key (HRef m)) = h0"
      using res(1) by (simp add: take_h_assign)
    from Cons.IH [OF this _ keys] Cons.prems(2) len
    have "deepMerge_h_loop fuel (h_assign h1 result key (HRef m)) target source result keys \<noteq> None"
      by simp
    with True inner show ?thesis by (simp add: Let_def)
  next
    case False
    have "take (length h0) (h_assign h result key ?sv) = h0"
      using res(1) Cons.prems(1) by (simp add: take_h_assign)
    from Cons.IH [OF this _ keys] Cons.prems(2)
    have "deepMerge_h_loop fuel (h_assign h result key ?sv) target source result keys \<noteq> None"
      by simp
    moreover from False have "deepMerge_h_loop fuel h target source result (key # keys) =
        deepMerge_h_loop fuel (h_assign h result key ?sv) target source result keys"
      by (auto simp: Let_def)
    ultimately show ?thesis by simp
  qed
qed

lemma deepMerge_h_returns:
  assumes "closed h0" and "take (length h0) h = h0" and "valid_ref h0 source"
    and "nesting_le d h0 source"
  shows "deepMerge_h (Suc d) h target source \<noteq> None"
  using assms(2-4)
proof (induction d arbitrary: h target source)
  case 0
  let ?h1 = "h @ [HObject (spread (h_own h target) [])]"
  from 0 have "\<not> h_isPlainObject h0 source" by simp
  then have "h_own h0 source = []"
    by (cases source) (auto simp: h_own_def h_isPlainObject_def split: hobject.splits)
  moreover have "take (length h0) ?h1 = h0"
    using "0.prems"(1) take_length_le [OF "0.prems"(1)] by simp
  ultimately have "h_own ?h1 source = []"
    using h_own_extension [of h0 ?h1 source] "0.prems"(2) by simp
  then show ?case by (simp add: alloc_def)
next
  case (Suc d)
  let ?h1 = "h @ [HObject (spread (h_own h target) [])]"
  have len: "length h0 \<le> length h"
    using Suc.prems(1) by (rule take_length_le)
  then have ext1: "take (length h0) ?h1 = h0"
    using Suc.prems(1) by simp
  have own1: "h_own ?h1 source = h_own h0 source"
    using ext1 Suc.prems(2) by (rule h_own_extension)
  have "deepMerge_h_loop (Suc d) ?h1 target source (length h) (map fst (h_own h0 source)) \<noteq> None"
  proof (rule deepMerge_h_loop_returns [OF ext1 len _ Suc.prems(2)])
    show "length h < length ?h1" by simp
    show "set (map fst (h_own h0 source)) \<subseteq> fst ` set (h_own h0 source)" by simp
    fix k w h2 t2
    assume kw: "(k, w) \<in> set (h_own h0 source)" and h2: "take (length h0) h2 = h0"
    from closed_own [OF assms(1) kw] have "valid_ref h0 w" .
    moreover from Suc.prems(3) kw have "nesting_le d h0 w" by auto
    ultimately show "deepMerge_h (Suc d) h2 t2 w \<noteq> None"
      using Suc.IH [OF h2] by blast
  qed
  then show ?case by (simp add: alloc_def own1)
qed

text \<open>
  C8, as the code has it. Whatever the strategy, when \<^verbatim>\<open>mergeData\<close> returns, every object
  of the store is as it was before the call, \<open>current\<close> and \<open>incoming\<close> among them. For
  \<^verbatim>\<open>"merge"\<close>, \<^verbatim>\<open>"strict"\<close> and \<^verbatim>\<open>"deep"\<close> the object returned was allocated by the call,
  so it is neither \<open>current\<close> nor \<open>incoming\<close>; for \<^verbatim>\<open>"replace"\<close> the object returned is
  \<open>incoming\<close> itself and nothing is allocated. The call returns for every strategy
  other than \<^verbatim>\<open>"deep"\<close>, and for \<^verbatim>\<open>"deep"\<close> when the store is closed and the nesting of
  \<open>incoming\<close> is bounded.
\<close>

theorem mergeData_h_frame:
  assumes "current < length h" and "incoming < length h"
  shows
    "(\<forall>h' r. mergeData_h fuel h current incoming strategy = Some (h', r) \<longrightarrow>
        take (length h) h' = h \<and>
        (if strategy = Replace then r = incoming \<and> h' = h
         else length h \<le> r \<and> r < length h' \<and> r \<noteq> current \<and> r \<noteq> incoming)) \<and>
     (strategy \<noteq> Deep \<longrightarrow> mergeData_h fuel h current incoming strategy \<noteq> None) \<and>
     (closed h \<and> nesting_le d h (HRef incoming) \<longrightarrow>
        mergeData_h (Suc d) h current incoming Deep \<noteq> None)"
proof -
  have frame: "take (length h) h' = h \<and>
        (if strategy = Replace then r = incoming \<and> h' = h
         else length h \<le> r \<and> r < length h' \<and> r \<noteq> current \<and> r \<noteq> incoming)"
    if run: "mergeData_h fuel h current incoming strategy = Some (h', r)" for h' r
  proof (cases strategy)
    case Merge
    with run assms show ?thesis by (auto simp: mergeData_h_def alloc_def)
  next
    case Replace
    with run show ?thesis by (simp add: mergeData_h_def)
  next
    case Strict
    let ?h1 = "h @ [HObject []]"
    let ?h2 = "foldl (strict_step_h incoming (length h)) ?h1 (map fst (h_own ?h1 (HRef current)))"
    from strict_fold_frame [of "length h" "length h" incoming ?h1]
    have f: "take (length h) ?h2 = h" "length ?h2 = Suc (length h)"
      by simp_all
    from run Strict have "h' = ?h2 @ [HObject (spread (h_own ?h2 (HRef (length h)))
                                        (spread (h_own ?h2 (HRef current)) []))]"
      and "r = length ?h2"
      by (simp_all add: mergeData_h_def alloc_def Let_def)
    with f assms Strict show ?thesis by simp
  next
    case Deep
    with run have "deepMerge_h fuel h (HRef current) (HRef incoming) = Some (h', r)"
      by (simp add: mergeData_h_def)
    from deepMerge_h_frame(1) [OF this] assms Deep show ?thesis by simp
  qed
  have total: "mergeData_h fuel h current incoming strategy \<noteq> None" if "strategy \<noteq> Deep"
    using that by (cases strategy) (simp_all add: mergeData_h_def Let_def split: prod.splits)
  have deep: "mergeData_h (Suc d) h current incoming Deep \<noteq> None"
    if "closed h \<and> nesting_le d h (HRef incoming)"
  proof -
    from that have "deepMerge_h (Suc d) h (HRef current) (HRef incoming) \<noteq> None"
      using assms(2) by (intro deepMerge_h_returns [of h]) (simp_all add: valid_ref_def)
    then show ?thesis
      by (simp add: mergeData_h_def)
  qed
  from frame total deep show ?thesis by blast
qed

theorem mergeData_h_frame_witness:
  "mergeData_h 3 sample_heap 0 1 Deep =
     Some (sample_heap @
             [HObject [(''a'', HRef 6), (''x'', HNum 1), (''l'', HRef 4)],
              HObject [(''p'', HNum 1), (''q'', HNum 2)]], 5) \<and>
   mergeData_h 3 sample_heap 0 1 Deep \<noteq> None \<and>
   take (length sample_heap)
     (sample_heap @
        [HObject [(''a'', HRef 6), (''x'', HNum 1), (''l'', HRef 4)],
         HObject [(''p'', HNum 1), (''q'', HNum 2)]]) = sample_heap \<and>
   length sample_heap \<le> 5"
proof -
  have len: "(0::nat) < length sample_heap" "(1::nat) < length sample_heap"
    by (simp_all add: sample_heap_def)
  have c: "closed sample_heap"
    by (simp add: sample_heap_def closed_def valid_ref_def)
  have n: "nesting_le 2 sample_heap (HRef 1)"
    by code_simp
  have run: "mergeData_h 3 sample_heap 0 1 Deep =
     Some (sample_heap @
             [HObject [(''a'', HRef 6), (''x'', HNum 1), (''l'', HRef 4)],
              HObject [(''p'', HNum 1), (''q'', HNum 2)]], 5)"
    by code_simp
  from mergeData_h_frame [OF len, of 3 Deep 2] run c n show ?thesis
    by simp
qed

text \<open>
  C8, as stated, fails for \<^verbatim>\<open>"replace"\<close>: with \<open>current\<close> at address 0 and \<open>incoming\<close> at
  address 1 the call returns address 1, which is \<open>incoming\<close>, not a new object.
\<close>

theorem mergeData_h_replace_returns_incoming:
  "mergeData_h 1 [HObject [(''a'', HNum 1)], HObject [(''b'', HNum 2)]] 0 1 Replace =
     Some ([HObject [(''a'', HNum 1)], HObject [(''b'', HNum 2)]], 1)"
  by code_simp


section \<open>The flattener\<close>

lemma flattenObject_append:
  "flattenObject (ps @ qs) parentKey result =
     flattenObject qs parentKey (flattenObject ps parentKey result)"
  by (induction ps parentKey result rule: flattenObject.induct) (simp_all add: Let_def)


text \<open>
  C10. A property whose value is a non-null object that is neither an array nor a
  \<^verbatim>\<open>Date\<close> and has no own enumerable property leaves no trace in the output of
  \<^verbatim>\<open>flattenObject\<close>: the output is that of the object without the property. So
  \<open>{a: {}}\<close> flattens to \<open>{}\<close>, as \<open>{}\<close> does, and the empty object cannot be recovered.
\<close>

theorem flattenObject_drops_empty_object:
  "(value \<noteq> JNull \<and> typeof value = ''object'' \<and> \<not> Array_isArray value \<and>
    \<not> instanceof_Date value \<and> own_entries value = [] \<longrightarrow>
      flattenObject (ps @ (key, value) # qs) parentKey result =
        flattenObject (ps @ qs) parentKey result) \<and>
   flattenObject [(''a'', JObj [])] [] [] = [] \<and>
   flattenObject [(''a'', JObj [])] [] [] = flattenObject [] [] []"
proof -
  have "flattenObject (ps @ (key, value) # qs) parentKey result =
          flattenObject (ps @ qs) parentKey result"
    if "value \<noteq> JNull" "typeof value = ''object''" "\<not> Array_isArray value"
      "\<not> instanceof_Date value" "own_entries value = []"
  proof -
    have "flattenObject ((key, value) # qs) parentKey r = flattenObject qs parentKey r" for r
      using that by (simp add: Let_def)
    then show ?thesis
      by (simp add: flattenObject_append)
  qed
  moreover have "flattenObject [(''a'', JObj [])] [] [] = []"
    by simp
  ultimately show ?thesis
    by simp
qed

theorem flattenObject_drops_empty_object_witness:
  "flattenObject [(''b'', JNum 1), (''a'', JObj []), (''c'', JNum 2)] [] [] =
     flattenObject [(''b'', JNum 1), (''c'', JNum 2)] [] []"
  using flattenObject_drops_empty_object
          [of "JObj []" "[(''b'', JNum 1)]" "''a''" "[(''c'', JNum 2)]" "[]" "[]"]
  by simp


section \<open>Flattening and un-flattening\<close>

text \<open>
  Keys without dots are recovered from their dot-joined path; the flattener writes the
  leaves of a tree, each under its joined path; un-flattening stores them back one by
  one and rebuilds the tree.
\<close>

lemma split_path_dot_free: "CHR ''.'' \<notin> set k \<Longrightarrow> split_path k = [k]"
  by (induction k) auto

lemma split_path_dot:
  "CHR ''.'' \<notin> set k \<Longrightarrow> split_path (k @ CHR ''.'' # s) = k # split_path s"
  by (induction k) (auto split: list.splits)

lemma split_path_nonempty: "split_path s \<noteq> []"
  by (induction s) (auto split: list.splits)

lemma split_join:
  "cs \<noteq> [] \<Longrightarrow> \<forall>c \<in> set cs. CHR ''.'' \<notin> set c \<Longrightarrow> split_path (join_path cs) = cs"
  by (induction cs rule: join_path.induct) (simp_all add: split_path_dot_free split_path_dot)

lemma join_snoc: "cs \<noteq> [] \<Longrightarrow> join_path (cs @ [k]) = join_path cs @ CHR ''.'' # k"
  by (induction cs rule: join_path.induct) simp_all

lemma join_long_has_dot: "length cs \<ge> 2 \<Longrightarrow> CHR ''.'' \<in> set (join_path cs)"
  by (induction cs rule: join_path.induct) simp_all


lemma join_nonempty: "length cs \<ge> 2 \<Longrightarrow> join_path cs \<noteq> []"
  using join_long_has_dot [of cs] by auto

lemma tree_ok_cases:
  assumes "tree_ok v"
  obtains (obj) qs where "v = JObj qs" "qs \<noteq> []" "distinct (map fst qs)"
      "\<forall>(k, w) \<in> set qs. CHR ''.'' \<notin> set k \<and> tree_ok w"
  | (prim) "is_primitive v"
  using assms by (cases v) auto

lemma primitive_not_traversed:
  "is_primitive v \<Longrightarrow>
     \<not> (v \<noteq> JNull \<and> typeof v = ''object'' \<and> \<not> Array_isArray v \<and> \<not> instanceof_Date v)"
  by (cases v) auto

lemma join_snoc_rev:
  "join_path cs \<noteq> [] \<Longrightarrow> join_path cs @ CHR ''.'' # k = join_path (cs @ [k])"
  using join_snoc [of cs k] by (cases "cs = []") simp_all

lemma flattenObject_leaves:
  assumes "\<forall>(k, v) \<in> set ps. tree_ok v \<and> (\<not> is_primitive v \<longrightarrow> join_path (cs @ [k]) \<noteq> [])"
    and "cs = [] \<or> join_path cs \<noteq> []"
  shows "flattenObject ps (join_path cs) result = fold write_leaf (leaves cs ps) result"
  using assms
proof (induction cs ps arbitrary: result rule: leaves.induct)
  case (1 cs)
  then show ?case by simp
next
  case (2 cs k v rest)
  have nk: "(if join_path cs \<noteq> [] then join_path cs @ ''.'' @ k else k) = join_path (cs @ [k])"
  proof (cases "cs = []")
    case True
    then show ?thesis by simp
  next
    case False
    with "2.prems"(2) join_snoc [OF False, of k] show ?thesis by simp
  qed
  from "2.prems" have outer: "\<forall>(k, v) \<in> set rest. tree_ok v \<and>
      (\<not> is_primitive v \<longrightarrow> join_path (cs @ [k]) \<noteq> [])"
    by simp
  note rest = "2.IH"(2) [OF outer "2.prems"(2)]
  from "2.prems"(1) have "tree_ok v" by simp
  then show ?case
  proof (cases rule: tree_ok_cases)
    case (obj qs)
    from obj have inner: "\<forall>(k', w) \<in> set qs. tree_ok w \<and>
        (\<not> is_primitive w \<longrightarrow> join_path ((cs @ [k]) @ [k']) \<noteq> [])"
      by (auto intro!: join_nonempty)
    from "2.prems" obj have here: "cs @ [k] = [] \<or> join_path (cs @ [k]) \<noteq> []"
      by simp
    have "flattenObject ((k, v) # rest) (join_path cs) result =
            flattenObject rest (join_path cs) (flattenObject qs (join_path (cs @ [k])) result)"
      using nk obj by (simp add: Let_def)
    then show ?thesis
      using obj by (simp add: "2.IH"(1) [OF obj(1) inner here] rest)
  next
    case prim
    then have "flattenObject ((k, v) # rest) (join_path cs) result =
            flattenObject rest (join_path cs) (js_set result (join_path (cs @ [k])) v)"
      using nk by (cases v) (simp_all add: Let_def)
    moreover from prim have "leaves cs ((k, v) # rest) = (cs @ [k], v) # leaves cs rest"
      by (cases v) simp_all
    ultimately show ?thesis
      by (simp add: rest write_leaf_def)
  qed
qed

lemma child_update: "child (AList.update c (JObj x) obj) c = x"
  by (simp add: child_def update_conv')

lemma child_fresh: "k \<notin> fst ` set obj \<Longrightarrow> child obj k = []"
  by (simp add: child_def map_of_eq_None_iff [THEN iffD2])

lemma update_fresh: "k \<notin> fst ` set obj \<Longrightarrow> AList.update k v obj = obj @ [(k, v)]"
  by (induction obj) auto

lemma sub_at_put_at: "sub_at cs (put_at cs new obj) = new"
  by (induction cs arbitrary: obj) (simp_all add: child_update)

lemma put_at_put_at: "put_at cs new2 (put_at cs new1 obj) = put_at cs new2 obj"
  by (induction cs arbitrary: obj) (simp_all add: child_update)

lemma set_path_Cons:
  "ks \<noteq> [] \<Longrightarrow> set_path (k # ks) v obj = AList.update k (JObj (set_path ks v (child obj k))) obj"
  by (cases ks) simp_all

lemma set_path_snoc:
  "set_path (cs @ [k]) v obj = put_at cs (AList.update k v (sub_at cs obj)) obj"
  by (induction cs arbitrary: obj) (simp_all add: set_path_Cons)

lemma put_at_snoc:
  "put_at (cs @ [k]) new obj = put_at cs (AList.update k (JObj new) (sub_at cs obj)) obj"
  by (induction cs arbitrary: obj) simp_all

lemma sub_at_snoc: "sub_at (cs @ [k]) obj = child (sub_at cs obj) k"
  by (induction cs arbitrary: obj) simp_all

lemma rebuild_step:
  assumes "k \<notin> fst ` set (sub_at cs acc)"
    and "acc1 = put_at cs (sub_at cs acc @ [(k, v)]) acc"
  shows "sub_at cs acc1 = sub_at cs acc @ [(k, v)]"
    and "put_at cs (sub_at cs acc1) acc1 = acc1"
    and "put_at cs new acc1 = put_at cs new acc"
  using assms by (simp_all add: sub_at_put_at put_at_put_at)

lemma rebuild:
  assumes "distinct (map fst ps)" and "\<forall>(k, v) \<in> set ps. tree_ok v"
    and "fst ` set ps \<inter> fst ` set (sub_at cs acc) = {}"
    and "ps \<noteq> [] \<or> put_at cs (sub_at cs acc) acc = acc"
  shows "fold store_leaf (leaves cs ps) acc = put_at cs (sub_at cs acc @ ps) acc"
  using assms
proof (induction cs ps arbitrary: acc rule: leaves.induct)
  case (1 cs)
  then show ?case by simp
next
  case (2 cs k v rest)
  let ?old = "sub_at cs acc"
  define acc1 where "acc1 = put_at cs (?old @ [(k, v)]) acc"
  from "2.prems"(3) have fresh: "k \<notin> fst ` set ?old" by auto
  note step = rebuild_step [OF fresh acc1_def]
  have first: "fold store_leaf
                 (case v of JObj qs \<Rightarrow> leaves (cs @ [k]) qs | JRegExp r \<Rightarrow> []
                  | JObjectPrototype \<Rightarrow> [] | _ \<Rightarrow> [(cs @ [k], v)]) acc = acc1"
  proof -
    from "2.prems"(2) have "tree_ok v" by simp
    then show ?thesis
    proof (cases rule: tree_ok_cases)
      case (obj qs)
      have empty: "sub_at (cs @ [k]) acc = []"
        using fresh by (simp add: sub_at_snoc child_fresh)
      have "fold store_leaf (leaves (cs @ [k]) qs) acc =
              put_at (cs @ [k]) (sub_at (cs @ [k]) acc @ qs) acc"
        using obj empty by (intro "2.IH"(1) [OF obj(1)]) auto
      also have "\<dots> = put_at cs (AList.update k (JObj qs) ?old) acc"
        by (simp add: empty put_at_snoc)
      also have "\<dots> = acc1"
        using fresh obj by (simp add: acc1_def update_fresh)
      finally show ?thesis using obj by simp
    next
      case prim
      then have "fold store_leaf
                   (case v of JObj qs \<Rightarrow> leaves (cs @ [k]) qs | JRegExp r \<Rightarrow> []
                    | JObjectPrototype \<Rightarrow> [] | _ \<Rightarrow> [(cs @ [k], v)]) acc
                   = set_path (cs @ [k]) v acc"
        by (cases v) (simp_all add: store_leaf_def)
      also have "\<dots> = acc1"
        using fresh by (simp add: set_path_snoc acc1_def update_fresh)
      finally show ?thesis .
    qed
  qed
  have "fold store_leaf (leaves cs rest) acc1 = put_at cs (sub_at cs acc1 @ rest) acc1"
  proof (rule "2.IH"(2))
    show "distinct (map fst rest)" using "2.prems"(1) by simp
    show "\<forall>(k, v) \<in> set rest. tree_ok v" using "2.prems"(2) by simp
    show "fst ` set rest \<inter> fst ` set (sub_at cs acc1) = {}"
      using "2.prems"(1,3) by (auto simp: step(1) image_iff)
    show "rest \<noteq> [] \<or> put_at cs (sub_at cs acc1) acc1 = acc1"
      by (simp add: step(2))
  qed
  also have "\<dots> = put_at cs (?old @ (k, v) # rest) acc"
    by (simp add: step(1) step(3))
  finally show ?case
    by (simp add: first)
qed

lemma rebuild_top:
  assumes "distinct (map fst ps)" and "\<forall>(k, v) \<in> set ps. tree_ok v"
  shows "fold store_leaf (leaves [] ps) [] = ps"
  using rebuild [OF assms, of "[]" "[]"] by simp

lemma leaves_prefix:
  "(p, v) \<in> set (leaves cs ps) \<Longrightarrow> \<exists>k r. p = cs @ k # r \<and> k \<in> fst ` set ps"
proof (induction cs ps rule: leaves.induct)
  case (1 cs)
  then show ?case by simp
next
  case (2 cs k w rest)
  from "2.prems" consider
      (inner) qs where "w = JObj qs" "(p, v) \<in> set (leaves (cs @ [k]) qs)"
    | (leaf) "p = cs @ [k]"
    | (rest) "(p, v) \<in> set (leaves cs rest)"
    by (cases w) auto
  then show ?case
  proof cases
    case inner
    from "2.IH"(1) [OF inner] show ?thesis by auto
  next
    case leaf
    then show ?thesis by auto
  next
    case rest
    from "2.IH"(2) [OF rest] show ?thesis by auto
  qed
qed

lemma leaves_dot_free:
  assumes "(p, v) \<in> set (leaves cs ps)"
    and "\<forall>(k, v) \<in> set ps. CHR ''.'' \<notin> set k \<and> tree_ok v"
    and "\<forall>c \<in> set cs. CHR ''.'' \<notin> set c"
  shows "\<forall>c \<in> set p. CHR ''.'' \<notin> set c"
  using assms
proof (induction cs ps rule: leaves.induct)
  case (1 cs)
  then show ?case by simp
next
  case (2 cs k w rest)
  from "2.prems"(1) consider
      (inner) qs where "w = JObj qs" "(p, v) \<in> set (leaves (cs @ [k]) qs)"
    | (leaf) "p = cs @ [k]"
    | (rest) "(p, v) \<in> set (leaves cs rest)"
    by (cases w) auto
  then show ?case
  proof cases
    case inner
    with "2.prems"(2) have "\<forall>(k, v) \<in> set qs. CHR ''.'' \<notin> set k \<and> tree_ok v"
      by simp
    moreover from "2.prems"(2,3) have "\<forall>c \<in> set (cs @ [k]). CHR ''.'' \<notin> set c"
      by simp
    ultimately show ?thesis
      using "2.IH"(1) [OF inner] by blast
  next
    case leaf
    with "2.prems"(2,3) show ?thesis by simp
  next
    case rest
    with "2.prems"(2,3) "2.IH"(2) show ?thesis by simp
  qed
qed

lemma leaves_distinct:
  assumes "distinct (map fst ps)" and "\<forall>(k, v) \<in> set ps. tree_ok v"
  shows "distinct (map fst (leaves cs ps))"
  using assms
proof (induction cs ps rule: leaves.induct)
  case (1 cs)
  then show ?case by simp
next
  case (2 cs k w rest)
  let ?first = "case w of JObj qs \<Rightarrow> leaves (cs @ [k]) qs | JRegExp r \<Rightarrow> []
                   | JObjectPrototype \<Rightarrow> [] | _ \<Rightarrow> [(cs @ [k], w)]"
  have first_prefix: "\<exists>r. p = cs @ k # r" if "(p, v) \<in> set ?first" for p v
  proof (cases "\<exists>qs. w = JObj qs")
    case True
    then obtain qs where w: "w = JObj qs" by blast
    with that leaves_prefix [of p v "cs @ [k]" qs] show ?thesis by auto
  next
    case False
    with that show ?thesis by (cases w) auto
  qed
  have d1: "distinct (map fst ?first)"
  proof (cases "\<exists>qs. w = JObj qs")
    case True
    then obtain qs where w: "w = JObj qs" by blast
    with "2.prems"(2) have "distinct (map fst qs)" "\<forall>(k, v) \<in> set qs. tree_ok v"
      by auto
    from "2.IH"(1) [OF w this] w show ?thesis by simp
  next
    case False
    then show ?thesis by (cases w) auto
  qed
  have d2: "distinct (map fst (leaves cs rest))"
    using "2.prems" by (intro "2.IH"(2)) auto
  have disj: "fst ` set ?first \<inter> fst ` set (leaves cs rest) = {}"
  proof (rule ccontr)
    assume "fst ` set ?first \<inter> fst ` set (leaves cs rest) \<noteq> {}"
    then obtain p v v' where a: "(p, v) \<in> set ?first" and b: "(p, v') \<in> set (leaves cs rest)"
      by (auto simp: image_iff)
    from first_prefix [OF a] obtain r where "p = cs @ k # r" by blast
    moreover from leaves_prefix [OF b] obtain k' r' where "p = cs @ k' # r'" "k' \<in> fst ` set rest"
      by blast
    ultimately have "k \<in> fst ` set rest" by simp
    with "2.prems"(1) show False by simp
  qed
  from d1 d2 disj show ?case
    by (simp add: distinct_append)  
qed

lemma join_inject:
  assumes "join_path p = join_path q" and "p \<noteq> []" and "q \<noteq> []"
    and "\<forall>c \<in> set p. CHR ''.'' \<notin> set c" and "\<forall>c \<in> set q. CHR ''.'' \<notin> set c"
  shows "p = q"
proof -
  have "p = split_path (join_path p)"
    by (rule split_join [OF assms(2,4), symmetric])
  also have "\<dots> = split_path (join_path q)"
    by (simp only: assms(1))
  also have "\<dots> = q"
    by (rule split_join [OF assms(3,5)])
  finally show ?thesis .
qed

lemma leaves_no_proto:
  assumes "\<forall>(k, v) \<in> set ps. tree_ok v"
    and "cs = [] \<longrightarrow> (\<forall>(k, v) \<in> set ps. is_primitive v \<longrightarrow> k \<noteq> ''__proto__'')"
    and "(p, v) \<in> set (leaves cs ps)"
  shows "join_path p \<noteq> ''__proto__''"
  using assms
proof (induction cs ps rule: leaves.induct)
  case (1 cs)
  then show ?case by simp
next
  case (2 cs k w rest)
  from "2.prems"(3) consider
      (inner) qs where "w = JObj qs" "(p, v) \<in> set (leaves (cs @ [k]) qs)"
    | (leaf) "p = cs @ [k]" "\<forall>qs. w \<noteq> JObj qs"
    | (rest) "(p, v) \<in> set (leaves cs rest)"
    by (cases w) auto
  then show ?case
  proof cases
    case inner
    with "2.prems"(1) have "\<forall>(k, v) \<in> set qs. tree_ok v" by auto
    from "2.IH"(1) [OF inner(1) this _ inner(2)] show ?thesis by simp
  next
    case leaf
    show ?thesis
    proof (cases "cs = []")
      case True
      from leaf "2.prems"(1) have "is_primitive w" by (cases w) auto
      with True "2.prems"(2) leaf show ?thesis by simp
    next
      case False
      then have "length p \<ge> 2" using leaf by (cases cs) simp_all
      from join_long_has_dot [OF this] show ?thesis by auto
    qed
  next
    case rest
    with "2.prems" "2.IH"(2) show ?thesis by simp
  qed
qed

lemma fold_write_leaf:
  assumes "distinct (map (join_path \<circ> fst) L)"
    and "\<forall>(p, v) \<in> set L. join_path p \<noteq> ''__proto__''"
    and "(join_path \<circ> fst) ` set L \<inter> fst ` set r = {}"
  shows "fold write_leaf L r = r @ map (\<lambda>(p, v). (join_path p, v)) L"
  using assms
proof (induction L arbitrary: r)
  case Nil
  then show ?case by simp
next
  case (Cons e L)
  obtain p v where e: "e = (p, v)" by (cases e)
  from Cons.prems e have fresh: "join_path p \<notin> fst ` set r" and np: "join_path p \<noteq> ''__proto__''"
    by auto
  then have w: "write_leaf e r = r @ [(join_path p, v)]"
    by (simp add: e write_leaf_def js_set_def update_fresh)
  have "fold write_leaf L (r @ [(join_path p, v)]) =
          (r @ [(join_path p, v)]) @ map (\<lambda>(p, v). (join_path p, v)) L"
    using Cons.prems e by (intro Cons.IH) (auto simp: image_iff)
  with w e show ?case by simp
qed

lemma top_ok_leaves:
  assumes "top_ok obj" and "(p, v) \<in> set (leaves [] obj)"
  shows "p \<noteq> []" and "\<forall>c \<in> set p. CHR ''.'' \<notin> set c" and "join_path p \<noteq> ''__proto__''"
proof -
  from leaves_prefix [OF assms(2)] show "p \<noteq> []" by auto
  from assms(1) have "\<forall>(k, v) \<in> set obj. CHR ''.'' \<notin> set k \<and> tree_ok v"
    by (auto simp: top_ok_def)
  from leaves_dot_free [OF assms(2) this] show "\<forall>c \<in> set p. CHR ''.'' \<notin> set c"
    by simp
  from assms(1) have "\<forall>(k, v) \<in> set obj. tree_ok v"
    and "\<forall>(k, v) \<in> set obj. is_primitive v \<longrightarrow> k \<noteq> ''__proto__''"
    by (auto simp: top_ok_def)
  then show "join_path p \<noteq> ''__proto__''"
    using leaves_no_proto [of obj "[]" p v] assms(2) by blast
qed

lemma flattenObject_top:
  assumes "top_ok obj"
  shows "flattenObject obj [] [] = map (\<lambda>(p, v). (join_path p, v)) (leaves [] obj)"
proof -
  let ?L = "leaves [] obj"
  from assms have "\<forall>(k, v) \<in> set obj. tree_ok v \<and> (\<not> is_primitive v \<longrightarrow> join_path ([] @ [k]) \<noteq> [])"
    by (auto simp: top_ok_def)
  from flattenObject_leaves [OF this, of "[]"]
  have 1: "flattenObject obj [] [] = fold write_leaf ?L []"
    by simp
  from assms have "distinct (map fst obj)" "\<forall>(k, v) \<in> set obj. tree_ok v"
    by (auto simp: top_ok_def)
  then have d: "distinct (map fst ?L)"
    by (rule leaves_distinct)
  have inj: "inj_on join_path (set (map fst ?L))"
  proof (rule inj_onI)
    fix p q
    assume "p \<in> set (map fst ?L)" "q \<in> set (map fst ?L)" "join_path p = join_path q"
    then obtain v w where "(p, v) \<in> set ?L" "(q, w) \<in> set ?L" by auto
    with top_ok_leaves [OF assms] \<open>join_path p = join_path q\<close> show "p = q"
      by (intro join_inject) blast+
  qed
  have "distinct (map join_path (map fst ?L))"
    by (rule distinct_map [THEN iffD2, OF conjI [OF d inj]])
  then have dj: "distinct (map (join_path \<circ> fst) ?L)"
    by (simp only: map_map)
  have "\<forall>(p, v) \<in> set ?L. join_path p \<noteq> ''__proto__''"
    using top_ok_leaves(3) [OF assms] by blast
  from fold_write_leaf [OF dj this, of "[]"] 1 show ?thesis
    by simp
qed

lemma unflatten_joined:
  assumes "\<forall>(p, v) \<in> set L. p \<noteq> [] \<and> (\<forall>c \<in> set p. CHR ''.'' \<notin> set c)"
  shows "unflatten (map (\<lambda>(p, v). (join_path p, v)) L) = fold store_leaf L []"
proof -
  have "unflatten (map (\<lambda>(p, v). (join_path p, v)) L) =
          fold ((\<lambda>(path, v) obj. set_path (split_path path) v obj) \<circ> (\<lambda>(p, v). (join_path p, v))) L []"
    by (simp add: unflatten_def fold_map)
  also have "\<dots> = fold store_leaf L []"
  proof (rule fold_cong)
    fix e
    assume "e \<in> set L"
    with assms show "((\<lambda>(path, v) obj. set_path (split_path path) v obj) \<circ>
             (\<lambda>(p, v). (join_path p, v))) e = store_leaf e"
      by (cases e) (auto simp: store_leaf_def split_join)
  qed simp_all
  finally show ?thesis .
qed

text \<open>
  What the flattener leaves in the result, for every object: it assigns the leaves one
  by one, each under the key built along its path, so that a key holds the value of the
  last leaf assigned to it, and nothing but leaves is assigned.
\<close>

lemma flat_key_snoc:
  "flat_key (cs @ [k]) = (if flat_key cs \<noteq> [] then flat_key cs @ ''.'' @ k else k)"
  by (simp add: flat_key_def)

lemma assign_leaf_pair: "assign_leaf (p, v) r = js_set r (flat_key p) v"
  by (simp add: assign_leaf_def)

lemma flattenObject_assigns:
  "flattenObject ps (flat_key cs) result = fold assign_leaf (leaves cs ps) result"
proof (induction cs ps arbitrary: result rule: leaves.induct)
  case (1 cs)
  then show ?case by simp
next
  case (2 cs k v rest)
  note rest = "2.IH"(2)
  show ?case
  proof (cases "\<exists>qs. v = JObj qs")
    case True
    then obtain qs where v: "v = JObj qs" by blast
    have "flattenObject ((k, v) # rest) (flat_key cs) result =
            flattenObject rest (flat_key cs) (flattenObject qs (flat_key (cs @ [k])) result)"
      by (simp add: v Let_def flat_key_snoc)
    then show ?thesis
      by (simp add: v "2.IH"(1) [OF v] rest)
  next
    case False
    then show ?thesis
      by (cases v) (simp_all add: Let_def flat_key_snoc rest assign_leaf_pair)
  qed
qed

lemma fold_assign_other:
  "\<forall>(q, w) \<in> set L. flat_key q \<noteq> key \<Longrightarrow> map_of (fold assign_leaf L r) key = map_of r key"
proof (induction L arbitrary: r)
  case Nil
  then show ?case by simp
next
  case (Cons e L)
  obtain q w where e: "e = (q, w)" by (cases e)
  from Cons.prems e have ne: "flat_key q \<noteq> key" and later: "\<forall>(q, w) \<in> set L. flat_key q \<noteq> key"
    by simp_all
  have "map_of (fold assign_leaf (e # L) r) key = map_of (js_set r (flat_key q) w) key"
    by (simp add: e assign_leaf_pair Cons.IH [OF later])
  also have "\<dots> = map_of r key"
    using ne by (rule map_of_js_set_other)
  finally show ?case .
qed

lemma fold_assign_last:
  assumes "L = before @ (p, v) # after" and "flat_key p \<noteq> ''__proto__''"
    and "\<forall>(q, w) \<in> set after. flat_key q \<noteq> flat_key p"
  shows "map_of (fold assign_leaf L r) (flat_key p) = Some v"
proof -
  define r1 where "r1 = fold assign_leaf before r"
  have "fold assign_leaf L r = fold assign_leaf after (js_set r1 (flat_key p) v)"
    by (simp add: assms(1) r1_def assign_leaf_pair)
  then have "map_of (fold assign_leaf L r) (flat_key p) = map_of (js_set r1 (flat_key p) v) (flat_key p)"
    by (simp only: fold_assign_other [OF assms(3)])
  also have "\<dots> = Some v"
    using assms(2) by (simp add: map_of_js_set_same)
  finally show ?thesis .
qed

lemma set_update: "set (AList.update k v ps) \<subseteq> insert (k, v) (set ps)"
  by (induction ps) auto

lemma set_js_set: "set (js_set ps k v) \<subseteq> insert (k, v) (set ps)"
  using set_update [of k v ps] by (auto simp: js_set_def)

lemma fold_assign_entries:
  "set (fold assign_leaf L r) \<subseteq> set r \<union> (\<lambda>(p, v). (flat_key p, v)) ` set L"
proof (induction L arbitrary: r)
  case Nil
  then show ?case by simp
next
  case (Cons e L)
  obtain q w where e: "e = (q, w)" by (cases e)
  have "set (fold assign_leaf (e # L) r) \<subseteq>
          set (js_set r (flat_key q) w) \<union> (\<lambda>(p, v). (flat_key p, v)) ` set L"
    using Cons.IH [of "js_set r (flat_key q) w"] by (simp add: e assign_leaf_pair)
  with set_js_set [of r "flat_key q" w] show ?case
    by (auto simp: e)
qed

lemma join_path_hd: "p \<noteq> [] \<Longrightarrow> hd p \<noteq> [] \<Longrightarrow> join_path p \<noteq> []"
  by (induction p rule: join_path.induct) simp_all

lemma flat_key_join:
  "p \<noteq> [] \<Longrightarrow> length p = 1 \<or> hd p \<noteq> [] \<Longrightarrow> flat_key p = join_path p"
proof (induction p rule: rev_induct)
  case Nil
  then show ?case by simp
next
  case (snoc k cs)
  show ?case
  proof (cases "cs = []")
    case True
    then show ?thesis by (simp add: flat_key_def)
  next
    case False
    with snoc.prems have h: "hd cs \<noteq> []" by simp
    with snoc.IH False have "flat_key cs = join_path cs" by simp
    moreover from join_path_hd [OF False h] have "join_path cs \<noteq> []" .
    ultimately show ?thesis
      by (simp add: flat_key_snoc join_snoc [OF False])
  qed
qed

lemma leaves_nonempty: "(p, v) \<in> set (leaves cs ps) \<Longrightarrow> p \<noteq> []"
  using leaves_prefix [of p v cs ps] by auto

text \<open>
  C6, as the code has it. For every tree whose leaves are primitives, whose keys are
  distinct and contain no dot, whose nested objects are not empty, and where at the top
  level no key of an object value is empty and no key of a primitive value is
  \<^verbatim>\<open>__proto__\<close>, un-flattening the flattened object gives the object back. And a value that
  is an array or a \<^verbatim>\<open>Date\<close> is a leaf wherever it occurs and whatever it contains; the
  output of the flattener holds a leaf, as it is, under the dot-joined keys of its path,
  provided that the path is a single key or does not begin with the empty key, that the
  dot-joined key is not \<^verbatim>\<open>__proto__\<close>, and that no leaf visited later is assigned to the
  same key; and every entry of the output is a leaf under the key built along its path,
  so that nothing from inside an array or a \<^verbatim>\<open>Date\<close> gets a key of its own.
\<close>

theorem unflatten_flattenObject:
  "(top_ok obj \<longrightarrow> unflatten (flattenObject obj [] []) = obj) \<and>
   (Array_isArray leaf \<or> instanceof_Date leaf \<longrightarrow>
      leaves cs ((key, leaf) # rest) = (cs @ [key], leaf) # leaves cs rest) \<and>
   (leaves [] obj = before @ (p, v) # after \<and> (length p = 1 \<or> hd p \<noteq> []) \<and>
    join_path p \<noteq> ''__proto__'' \<and> (\<forall>(q, w) \<in> set after. flat_key q \<noteq> join_path p) \<longrightarrow>
      map_of (flattenObject obj [] []) (join_path p) = Some v) \<and>
   set (flattenObject obj [] []) \<subseteq> (\<lambda>(q, w). (flat_key q, w)) ` set (leaves [] obj)"
proof -
  have round_trip: "unflatten (flattenObject obj [] []) = obj" if ok: "top_ok obj"
  proof -
    have "\<forall>(p, v) \<in> set (leaves [] obj). p \<noteq> [] \<and> (\<forall>c \<in> set p. CHR ''.'' \<notin> set c)"
      using top_ok_leaves(1,2) [OF ok] by blast
    then have "unflatten (flattenObject obj [] []) = fold store_leaf (leaves [] obj) []"
      by (simp only: flattenObject_top [OF ok] unflatten_joined)
    also have "\<dots> = obj"
      using ok by (intro rebuild_top) (auto simp: top_ok_def)
    finally show ?thesis .
  qed
  have atomic: "leaves cs ((key, leaf) # rest) = (cs @ [key], leaf) # leaves cs rest"
    if "Array_isArray leaf \<or> instanceof_Date leaf"
    using that by (cases leaf) simp_all
  have assigns: "flattenObject obj [] [] = fold assign_leaf (leaves [] obj) []"
    using flattenObject_assigns [of obj "[]" "[]"] by (simp add: flat_key_def)
  have held: "map_of (flattenObject obj [] []) (join_path p) = Some v"
    if L: "leaves [] obj = before @ (p, v) # after" and single: "length p = 1 \<or> hd p \<noteq> []"
      and np: "join_path p \<noteq> ''__proto__''"
      and later: "\<forall>(q, w) \<in> set after. flat_key q \<noteq> join_path p"
  proof -
    from L have "(p, v) \<in> set (leaves [] obj)" by simp
    then have "p \<noteq> []" by (rule leaves_nonempty)
    from flat_key_join [OF this single] have k: "join_path p = flat_key p" by (rule sym)
    from np have np': "flat_key p \<noteq> ''__proto__''" unfolding k .
    from later have later': "\<forall>(q, w) \<in> set after. flat_key q \<noteq> flat_key p" unfolding k .
    show ?thesis
      unfolding assigns k by (rule fold_assign_last [OF L np' later'])
  qed
  have only_leaves:
    "set (flattenObject obj [] []) \<subseteq> (\<lambda>(q, w). (flat_key q, w)) ` set (leaves [] obj)"
    unfolding assigns using fold_assign_entries [of "leaves [] obj" "[]"] by simp
  from round_trip atomic held only_leaves show ?thesis
    by blast
qed

theorem unflatten_flattenObject_witness:
  "unflatten (flattenObject
      [(''a'', JObj [(''b'', JNum 1), (''c'', JObj [(''d'', JStr ''x'')])]), (''e'', JNull)] [] [])
     = [(''a'', JObj [(''b'', JNum 1), (''c'', JObj [(''d'', JStr ''x'')])]), (''e'', JNull)] \<and>
   leaves [''p''] [(''xs'', JArr [JObj [(''y'', JNum 1)]]), (''t'', JDate 0)] =
     ([''p'', ''xs''], JArr [JObj [(''y'', JNum 1)]]) # leaves [''p''] [(''t'', JDate 0)] \<and>
   map_of (flattenObject
      [(''a.b'', JNum 2), (''a'', JObj [(''b'', JArr [JObj [(''x'', JNum 1)]])]),
       (''__proto__'', JNum 5), (''d'', JDate 0)] [] []) ''a.b''
     = Some (JArr [JObj [(''x'', JNum 1)]]) \<and>
   map_of (flattenObject
      [(''a.b'', JNum 2), (''a'', JObj [(''b'', JArr [JObj [(''x'', JNum 1)]])]),
       (''__proto__'', JNum 5), (''d'', JDate 0)] [] []) ''d''
     = Some (JDate 0)"
proof -
  let ?tree = "[(''a'', JObj [(''b'', JNum 1), (''c'', JObj [(''d'', JStr ''x'')])]), (''e'', JNull)]"
  let ?arr = "JArr [JObj [(''x'', JNum 1)]]"
  let ?obj = "[(''a.b'', JNum 2), (''a'', JObj [(''b'', ?arr)]),
               (''__proto__'', JNum 5), (''d'', JDate 0)]"
  have "top_ok ?tree"
    by (simp add: top_ok_def)
  with unflatten_flattenObject [where obj = ?tree]
  have 1: "unflatten (flattenObject ?tree [] []) = ?tree"
    by blast
  from unflatten_flattenObject
         [where leaf = "JArr [JObj [(''y'', JNum 1)]]" and cs = "[''p'']" and key = "''xs''"
            and rest = "[(''t'', JDate 0)]"]
  have 2: "leaves [''p''] [(''xs'', JArr [JObj [(''y'', JNum 1)]]), (''t'', JDate 0)] =
     ([''p'', ''xs''], JArr [JObj [(''y'', JNum 1)]]) # leaves [''p''] [(''t'', JDate 0)]"
    by simp
  have L: "leaves [] ?obj =
     [([''a.b''], JNum 2), ([''a'', ''b''], ?arr), ([''__proto__''], JNum 5), ([''d''], JDate 0)]"
    by simp
  have k: "join_path [''a'', ''b''] = ''a.b''" "join_path [''d''] = ''d''"
    "flat_key [''__proto__''] = ''__proto__''" "flat_key [''d''] = ''d''"
    by (simp_all add: flat_key_def)
  from unflatten_flattenObject
         [where obj = ?obj and before = "[([''a.b''], JNum 2)]" and p = "[''a'', ''b'']"
            and v = ?arr and after = "[([''__proto__''], JNum 5), ([''d''], JDate 0)]"]
  have 3: "map_of (flattenObject ?obj [] []) ''a.b'' = Some ?arr"
    by (simp add: L k)
  from unflatten_flattenObject
         [where obj = ?obj
            and before = "[([''a.b''], JNum 2), ([''a'', ''b''], ?arr), ([''__proto__''], JNum 5)]"
            and p = "[''d'']" and v = "JDate 0" and after = "[]"]
  have 4: "map_of (flattenObject ?obj [] []) ''d'' = Some (JDate 0)"
    by (simp add: L k)
  from 1 2 3 4 show ?thesis
    by (intro conjI)
qed

text \<open>
  C6, as stated, fails. On trees of primitives: a key with a dot comes back as a nested
  object (and flattens like that nested object, so no inverse can tell them apart), an
  empty nested object is lost, an empty top-level key of an object is lost, and a
  top-level primitive under \<^verbatim>\<open>__proto__\<close> is lost. For arrays: the array under the key
  \<^verbatim>\<open>__proto__\<close> is in no entry of the output, the array at the path \<open>a\<close>, \<open>b\<close> is overwritten
  by the later leaf under the key \<open>a.b\<close>, and the array at the path that begins with the
  empty key is held under \<open>a\<close>, not under the dot-joined \<open>.a\<close>.
\<close>

theorem unflatten_flattenObject_fails:
  "primitive_leaves (JObj [(''a.b'', JNum 1)]) \<and>
   unflatten (flattenObject [(''a.b'', JNum 1)] [] []) \<noteq> [(''a.b'', JNum 1)] \<and>
   flattenObject [(''a.b'', JNum 1)] [] [] = flattenObject [(''a'', JObj [(''b'', JNum 1)])] [] [] \<and>
   primitive_leaves (JObj [(''a'', JObj [])]) \<and>
   unflatten (flattenObject [(''a'', JObj [])] [] []) \<noteq> [(''a'', JObj [])] \<and>
   primitive_leaves (JObj [('''', JObj [(''b'', JNum 1)])]) \<and>
   unflatten (flattenObject [('''', JObj [(''b'', JNum 1)])] [] []) \<noteq>
     [('''', JObj [(''b'', JNum 1)])] \<and>
   primitive_leaves (JObj [(''__proto__'', JNum 1)]) \<and>
   unflatten (flattenObject [(''__proto__'', JNum 1)] [] []) \<noteq> [(''__proto__'', JNum 1)] \<and>
   leaves [] [(''__proto__'', JArr [JNum 7, JNum 8])] =
     [([''__proto__''], JArr [JNum 7, JNum 8])] \<and>
   flattenObject [(''__proto__'', JArr [JNum 7, JNum 8])] [] [] = [] \<and>
   leaves [] [(''a'', JObj [(''b'', JArr [JNum 1])]), (''a.b'', JNum 2)] =
     [([''a'', ''b''], JArr [JNum 1]), ([''a.b''], JNum 2)] \<and>
   join_path [''a'', ''b''] = ''a.b'' \<and>
   flattenObject [(''a'', JObj [(''b'', JArr [JNum 1])]), (''a.b'', JNum 2)] [] [] =
     [(''a.b'', JNum 2)] \<and>
   leaves [] [('''', JObj [(''a'', JArr [JNum 1])])] = [(['''', ''a''], JArr [JNum 1])] \<and>
   join_path ['''', ''a''] = ''.a'' \<and>
   flattenObject [('''', JObj [(''a'', JArr [JNum 1])])] [] [] = [(''a'', JArr [JNum 1])]"
  by code_simp

section \<open>The mapper in the pipeline\<close>

text \<open>
  A key of the data that is neither an own key of the field map nor the name of a member
  of \<^verbatim>\<open>Object.prototype\<close> is a key of the mapped object.
\<close>

lemma applyMapping_Some:
  "applyMapping obj (Some fm) =
     fold (\<lambda>(key, v) mapped. js_set mapped (mappedKey fm key) v) obj []"
  by (simp add: applyMapping_def)

lemma keys_mapping_fold_mono:
  "k \<in> fst ` set acc \<Longrightarrow>
   k \<in> fst ` set (fold (\<lambda>(key, v) mapped. js_set mapped (mappedKey fm key) v) xs acc)"
proof (induction xs arbitrary: acc)
  case Nil
  then show ?case by simp
next
  case (Cons p xs)
  obtain key v where p: "p = (key, v)" by (cases p)
  from Cons.prems have "k \<in> fst ` set (js_set acc (mappedKey fm key) v)"
    by (simp add: keys_js_set_iff)
  from Cons.IH [OF this] p show ?case by simp
qed

lemma keys_mapping_fold_own:
  "k \<in> fst ` set xs \<Longrightarrow> mappedKey fm k = k \<Longrightarrow> k \<noteq> ''__proto__'' \<Longrightarrow>
   k \<in> fst ` set (fold (\<lambda>(key, v) mapped. js_set mapped (mappedKey fm key) v) xs acc)"
proof (induction xs arbitrary: acc)
  case Nil
  then show ?case by simp
next
  case (Cons p xs)
  obtain key v where p: "p = (key, v)" by (cases p)
  show ?case
  proof (cases "key = k")
    case True
    with Cons.prems have "k \<in> fst ` set (js_set acc (mappedKey fm key) v)"
      by (simp add: keys_js_set_iff)
    from keys_mapping_fold_mono [OF this] p show ?thesis by simp
  next
    case False
    with Cons.prems p have "k \<in> fst ` set xs" by auto
    from Cons.IH [OF this Cons.prems(2,3)] p show ?thesis by simp
  qed
qed

lemma fieldMap_get_None:
  "fieldMap_get fm k = None \<longleftrightarrow>
     k \<notin> fst ` set fm \<and> k \<notin> set Object_prototype_functions \<and> k \<noteq> ''__proto__''"
proof (cases "map_of fm k")
  case None
  then have "k \<notin> fst ` set fm"
    by (simp add: map_of_eq_None_iff)
  with None show ?thesis
    by (simp add: fieldMap_get_def)
next
  case (Some dst)
  then have "k \<in> fst ` set fm"
    using map_of_SomeD [of fm k dst] by (force simp: image_iff)
  with Some show ?thesis
    by (simp add: fieldMap_get_def)
qed

lemma applyMapping_unmapped_key:
  assumes "k \<in> fst ` set obj" and "k \<notin> fst ` set fm"
    and "k \<notin> set Object_prototype_functions" and "k \<noteq> ''__proto__''"
  shows "k \<in> fst ` set (applyMapping obj (Some fm))"
proof -
  from assms(2-4) have "fieldMap_get fm k = None"
    by (simp add: fieldMap_get_None)
  then have "mappedKey fm k = k"
    by (simp add: mappedKey_def)
  from keys_mapping_fold_own [OF assms(1) this assms(4)] show ?thesis
    by (simp add: applyMapping_Some)
qed

lemma processJsonData_scenario:
  \<open>processJsonData sample_JSON_parse
     (Text ''{"user":{"first_name":"Jane","last_name":"Doe","contact":{"email":"j@x.com"}}}'')
     (no_options\<lparr>fieldMap := Some [(''user.first_name'', ''firstName''),
                                    (''user.last_name'', ''lastName''),
                                    (''user.contact.email'', ''email'')]\<rparr>)
   = Inr \<lparr>data = [(''firstName'', JStr ''Jane''), (''lastName'', JStr ''Doe''),
                  (''email'', JStr ''j@x.com'')],
          cancelled = False\<rparr>\<close>
  by code_simp

text \<open>
  C7. The JSON text \<open>{"valueOf":1}\<close> passes the parser, and with any field map that
  does not mention \<open>valueOf\<close> the key does not pass through under its name: the read
  \<^verbatim>\<open>fieldMap[key]\<close> finds the function inherited from \<^verbatim>\<open>Object.prototype\<close>, whose text
  becomes the destination key.
\<close>

theorem processJsonData_inherited_source_key:
  \<open>processJsonData sample_JSON_parse (Text ''{"valueOf":1}'')
     (no_options\<lparr>fieldMap := Some [(''a'', ''b'')]\<rparr>)
   = Inr \<lparr>data = [(''function valueOf() { [native code] }'', JNum 1)], cancelled = False\<rparr>\<close>
  by code_simp


section \<open>The pipeline on an object input\<close>



section \<open>The plain-state binding\<close>

lemma catch_block_calls:
  "snd (catch_block opts t c) =
     c\<lparr>calls := calls c @
          (case onError opts of None \<Rightarrow> [] | Some f \<Rightarrow> [OnError (autoFillError t)])\<rparr>"
  by (simp add: catch_block_def notify_def split: option.splits)

lemma catch_block_returns:
  "\<forall>f. onError opts = Some f \<longrightarrow> f (autoFillError t) = None \<Longrightarrow>
     fst (catch_block opts t c) = Inr False"
  by (cases "onError opts") (auto simp: catch_block_def notify_def split: option.splits)

lemma processJson_failure:
  assumes "processJsonData JSON_parse jsonInput opts = Inl t"
  shows "processJson JSON_parse opts jsonInput c = catch_block opts t c"
  using assms by (simp add: processJson_def)

lemma processJson_cancelled:
  assumes "processJsonData JSON_parse jsonInput opts = Inr r" and "cancelled r"
  shows "processJson JSON_parse opts jsonInput c = (Inr False, c)"
  using assms by (simp add: processJson_def)

text \<open>
  A run whose pipeline succeeds without cancellation, step by step: the setter is
  called, then \<^verbatim>\<open>onAfterFill\<close>, then \<^verbatim>\<open>onSuccess\<close>; the first of the two that throws sends
  the run into the \<^verbatim>\<open>catch\<close> block.
\<close>

lemma processJson_success:
  assumes "processJsonData JSON_parse jsonInput opts = Inr r" and "\<not> cancelled r"
  shows "processJson JSON_parse opts jsonInput c =
     (let c1 = setFormData (\<lambda>prev. mergeData prev (data r)
                  (case mergeStrategy opts of Some s \<Rightarrow> s | None \<Rightarrow> Merge)) c;
          c2 = c1\<lparr>calls := calls c1 @
                  (case onAfterFill opts of None \<Rightarrow> [] | Some f \<Rightarrow> [OnAfterFill (data r)])\<rparr>;
          c3 = c2\<lparr>calls := calls c2 @
                  (case onSuccess opts of None \<Rightarrow> [] | Some f \<Rightarrow> [OnSuccess (data r)])\<rparr>
      in case (case onAfterFill opts of None \<Rightarrow> None | Some f \<Rightarrow> f (data r)) of
           Some t \<Rightarrow> catch_block opts t c2
         | None \<Rightarrow>
             (case (case onSuccess opts of None \<Rightarrow> None | Some f \<Rightarrow> f (data r)) of
                Some t \<Rightarrow> catch_block opts t c3
              | None \<Rightarrow> (Inr True, c3)))"
  using assms by (simp add: processJson_def notify_def Let_def split: option.splits)

lemma cancelled_iff:
  assumes "processJsonData JSON_parse jsonInput opts = Inr r"
  shows "cancelled r \<longleftrightarrow> (\<exists>f. onBeforeFill opts = Some f \<and> f (data r) = Inr (JBool False))"
  using assms
  by (auto simp: processJsonData_def Let_def split: option.splits sum.splits if_splits json_input.splits)

text \<open>
  C5, as the code has it. When a stage of the pipeline fails, \<^verbatim>\<open>onError\<close> (if
  configured) is called once with the error as a \<^verbatim>\<open>JsonAutoFillError\<close> (the error itself
  when it is one, a \<^verbatim>\<open>PARSE_ERROR\<close> otherwise), the setter is not called and the form
  data is left as it was; the result is \<^verbatim>\<open>false\<close> provided that call of \<^verbatim>\<open>onError\<close>
  returns normally. When the pipeline succeeds without cancellation, the setter is
  called first and the form data becomes the merge result, and \<^verbatim>\<open>onAfterFill\<close> (if
  configured) is called next; provided that call returns normally, \<^verbatim>\<open>onSuccess\<close> (if
  configured) is called after it; provided both return normally, nothing else is called
  and the result is \<^verbatim>\<open>true\<close>. When the pipeline is cancelled, which happens exactly when
  \<^verbatim>\<open>onBeforeFill\<close> returns \<^verbatim>\<open>false\<close>, nothing is called, nothing is stored and the result
  is \<^verbatim>\<open>false\<close>, whatever the notifications would do.
\<close>

theorem processJson_outcomes:
  "(\<forall>t. processJsonData JSON_parse jsonInput opts = Inl t \<longrightarrow>
      snd (processJson JSON_parse opts jsonInput c) =
        c\<lparr>calls := calls c @
             (case onError opts of None \<Rightarrow> [] | Some f \<Rightarrow> [OnError (autoFillError t)])\<rparr> \<and>
      (\<forall>e. t = Thrown_JsonAutoFillError e \<longrightarrow> autoFillError t = e) \<and>
      ((\<forall>e. t \<noteq> Thrown_JsonAutoFillError e) \<longrightarrow> code (autoFillError t) = PARSE_ERROR) \<and>
      ((\<forall>f. onError opts = Some f \<longrightarrow> f (autoFillError t) = None) \<longrightarrow>
         fst (processJson JSON_parse opts jsonInput c) = Inr False)) \<and>
   (\<forall>r merged after success.
      processJsonData JSON_parse jsonInput opts = Inr r \<and> \<not> cancelled r \<and>
      merged = mergeData (formData c) (data r)
                 (case mergeStrategy opts of Some s \<Rightarrow> s | None \<Rightarrow> Merge) \<and>
      after = (case onAfterFill opts of None \<Rightarrow> [] | Some f \<Rightarrow> [OnAfterFill (data r)]) \<and>
      success = (case onSuccess opts of None \<Rightarrow> [] | Some f \<Rightarrow> [OnSuccess (data r)]) \<longrightarrow>
      formData (snd (processJson JSON_parse opts jsonInput c)) = merged \<and>
      (\<exists>rest. calls (snd (processJson JSON_parse opts jsonInput c)) =
                calls c @ [SetFormData merged] @ after @ rest) \<and>
      ((\<forall>f. onAfterFill opts = Some f \<longrightarrow> f (data r) = None) \<longrightarrow>
         (\<exists>rest. calls (snd (processJson JSON_parse opts jsonInput c)) =
                   calls c @ [SetFormData merged] @ after @ success @ rest)) \<and>
      ((\<forall>f. onAfterFill opts = Some f \<longrightarrow> f (data r) = None) \<and>
       (\<forall>f. onSuccess opts = Some f \<longrightarrow> f (data r) = None) \<longrightarrow>
         processJson JSON_parse opts jsonInput c =
           (Inr True,
            c\<lparr>formData := merged,
              calls := calls c @ [SetFormData merged] @ after @ success\<rparr>))) \<and>
   (\<forall>r. processJsonData JSON_parse jsonInput opts = Inr r \<and> cancelled r \<longrightarrow>
      processJson JSON_parse opts jsonInput c = (Inr False, c)) \<and>
   (\<forall>r. processJsonData JSON_parse jsonInput opts = Inr r \<longrightarrow>
      (cancelled r \<longleftrightarrow>
         (\<exists>f. onBeforeFill opts = Some f \<and> f (data r) = Inr (JBool False))))"
proof -
  let ?P = "processJson JSON_parse opts jsonInput c"
  have failure:
    "snd ?P = c\<lparr>calls := calls c @
             (case onError opts of None \<Rightarrow> [] | Some f \<Rightarrow> [OnError (autoFillError t)])\<rparr> \<and>
      (\<forall>e. t = Thrown_JsonAutoFillError e \<longrightarrow> autoFillError t = e) \<and>
      ((\<forall>e. t \<noteq> Thrown_JsonAutoFillError e) \<longrightarrow> code (autoFillError t) = PARSE_ERROR) \<and>
      ((\<forall>f. onError opts = Some f \<longrightarrow> f (autoFillError t) = None) \<longrightarrow> fst ?P = Inr False)"
    if "processJsonData JSON_parse jsonInput opts = Inl t" for t
  proof -
    have "(\<forall>e. t = Thrown_JsonAutoFillError e \<longrightarrow> autoFillError t = e) \<and>
          ((\<forall>e. t \<noteq> Thrown_JsonAutoFillError e) \<longrightarrow> code (autoFillError t) = PARSE_ERROR)"
      by (cases t) (simp_all add: autoFillError_def)
    then show ?thesis
      by (simp add: processJson_failure [OF that] catch_block_calls catch_block_returns)
  qed
  have success:
    "formData (snd ?P) = merged \<and>
      (\<exists>rest. calls (snd ?P) = calls c @ [SetFormData merged] @ after @ rest) \<and>
      ((\<forall>f. onAfterFill opts = Some f \<longrightarrow> f (data r) = None) \<longrightarrow>
         (\<exists>rest. calls (snd ?P) = calls c @ [SetFormData merged] @ after @ success @ rest)) \<and>
      ((\<forall>f. onAfterFill opts = Some f \<longrightarrow> f (data r) = None) \<and>
       (\<forall>f. onSuccess opts = Some f \<longrightarrow> f (data r) = None) \<longrightarrow>
         ?P = (Inr True,
               c\<lparr>formData := merged,
                 calls := calls c @ [SetFormData merged] @ after @ success\<rparr>))"
    if run: "processJsonData JSON_parse jsonInput opts = Inr r" "\<not> cancelled r"
      and merged: "merged = mergeData (formData c) (data r)
                 (case mergeStrategy opts of Some s \<Rightarrow> s | None \<Rightarrow> Merge)"
      and after: "after = (case onAfterFill opts of None \<Rightarrow> [] | Some f \<Rightarrow> [OnAfterFill (data r)])"
      and success: "success = (case onSuccess opts of None \<Rightarrow> [] | Some f \<Rightarrow> [OnSuccess (data r)])"
    for r merged after success
    unfolding processJson_success [OF run] merged after success
    by (simp add: Let_def setFormData_def catch_block_calls split: option.splits)
  have stop: "?P = (Inr False, c)"
    if "processJsonData JSON_parse jsonInput opts = Inr r \<and> cancelled r" for r
    using that by (simp add: processJson_cancelled)
  have gate: "cancelled r \<longleftrightarrow> (\<exists>f. onBeforeFill opts = Some f \<and> f (data r) = Inr (JBool False))"
    if "processJsonData JSON_parse jsonInput opts = Inr r" for r
    using that by (rule cancelled_iff)
  from failure success stop gate show ?thesis
    by blast
qed

theorem processJson_outcomes_witness:
  \<open>processJson sample_JSON_parse
     (no_options\<lparr>mergeStrategy := Some Strict, onAfterFill := Some returns_normally,
                 onError := Some (throws ''boom''), onSuccess := Some returns_normally\<rparr>)
     (Text ''{"a":1}'') \<lparr>formData = [(''a'', JNum 0), (''b'', JNum 2)], calls = []\<rparr>
     = (Inr True,
        \<lparr>formData = [(''a'', JNum 1), (''b'', JNum 2)],
         calls = [SetFormData [(''a'', JNum 1), (''b'', JNum 2)],
                  OnAfterFill [(''a'', JNum 1)], OnSuccess [(''a'', JNum 1)]]\<rparr>) \<and>
   processJson sample_JSON_parse
     (no_options\<lparr>onAfterFill := Some (throws ''boom''), onError := Some returns_normally,
                 onSuccess := Some (throws ''boom'')\<rparr>)
     (Text ''{'') \<lparr>formData = [(''a'', JNum 0), (''b'', JNum 2)], calls = []\<rparr>
     = (Inr False,
        \<lparr>formData = [(''a'', JNum 0), (''b'', JNum 2)],
         calls = [OnError (JsonAutoFillError ''Invalid JSON file'' PARSE_ERROR)]\<rparr>) \<and>
   processJson sample_JSON_parse
     (no_options\<lparr>onBeforeFill := Some (returns (JBool False)),
                 onAfterFill := Some (throws ''boom''),
                 onError := Some (throws ''boom''), onSuccess := Some (throws ''boom'')\<rparr>)
     (Text ''{"a":1}'') \<lparr>formData = [(''a'', JNum 0), (''b'', JNum 2)], calls = []\<rparr>
     = (Inr False, \<lparr>formData = [(''a'', JNum 0), (''b'', JNum 2)], calls = []\<rparr>) \<and>
   processJson sample_JSON_parse
     (no_options\<lparr>transform := Some (fails ''bad''), onError := Some returns_normally\<rparr>)
     (Text ''{"a":1}'') \<lparr>formData = [(''a'', JNum 0), (''b'', JNum 2)], calls = []\<rparr>
     = (Inr False,
        \<lparr>formData = [(''a'', JNum 0), (''b'', JNum 2)],
         calls = [OnError (JsonAutoFillError ''bad'' PARSE_ERROR)]\<rparr>)\<close>
proof -
  let ?opts = "no_options\<lparr>mergeStrategy := Some Strict, onAfterFill := Some returns_normally,
                 onError := Some (throws ''boom''), onSuccess := Some returns_normally\<rparr>"
  let ?fail = "no_options\<lparr>onAfterFill := Some (throws ''boom''), onError := Some returns_normally,
                 onSuccess := Some (throws ''boom'')\<rparr>"
  let ?gate = "no_options\<lparr>onBeforeFill := Some (returns (JBool False)),
                 onAfterFill := Some (throws ''boom''),
                 onError := Some (throws ''boom''), onSuccess := Some (throws ''boom'')\<rparr>"
  let ?foreign = "no_options\<lparr>transform := Some (fails ''bad''), onError := Some returns_normally\<rparr>"
  let ?c = "\<lparr>formData = [(''a'', JNum 0), (''b'', JNum 2)], calls = []\<rparr>"
  have ok: \<open>processJsonData sample_JSON_parse (Text ''{"a":1}'') ?opts =
              Inr \<lparr>data = [(''a'', JNum 1)], cancelled = False\<rparr>\<close>
    by code_simp
  have bad: \<open>processJsonData sample_JSON_parse (Text ''{'') ?fail =
              Inl (Thrown_JsonAutoFillError (JsonAutoFillError ''Invalid JSON file'' PARSE_ERROR))\<close>
    by code_simp
  have stop: \<open>processJsonData sample_JSON_parse (Text ''{"a":1}'') ?gate =
              Inr \<lparr>data = [(''a'', JNum 1)], cancelled = True\<rparr>\<close>
    by code_simp
  have m: "mergeData [(''a'', JNum 0), (''b'', JNum 2)] [(''a'', JNum 1)] Strict =
             [(''a'', JNum 1), (''b'', JNum 2)]"
    by code_simp
  from processJson_outcomes
         [where JSON_parse = sample_JSON_parse and jsonInput = \<open>Text ''{"a":1}''\<close>
            and opts = ?opts and c = ?c] ok m
  have 1: \<open>processJson sample_JSON_parse ?opts (Text ''{"a":1}'') ?c =
            (Inr True,
             \<lparr>formData = [(''a'', JNum 1), (''b'', JNum 2)],
              calls = [SetFormData [(''a'', JNum 1), (''b'', JNum 2)],
                       OnAfterFill [(''a'', JNum 1)], OnSuccess [(''a'', JNum 1)]]\<rparr>)\<close>
    by (simp add: no_options_def returns_normally_def)
  from processJson_outcomes
         [where JSON_parse = sample_JSON_parse and jsonInput = \<open>Text ''{''\<close>
            and opts = ?fail and c = ?c] bad
  have 2: \<open>processJson sample_JSON_parse ?fail (Text ''{'') ?c =
            (Inr False,
             \<lparr>formData = [(''a'', JNum 0), (''b'', JNum 2)],
              calls = [OnError (JsonAutoFillError ''Invalid JSON file'' PARSE_ERROR)]\<rparr>)\<close>
    by (simp add: no_options_def returns_normally_def autoFillError_def prod_eq_iff)
  from processJson_outcomes
         [where JSON_parse = sample_JSON_parse and jsonInput = \<open>Text ''{"a":1}''\<close>
            and opts = ?gate and c = ?c] stop
  have 3: \<open>processJson sample_JSON_parse ?gate (Text ''{"a":1}'') ?c = (Inr False, ?c)\<close>
    by simp
  have thrown: \<open>processJsonData sample_JSON_parse (Text ''{"a":1}'') ?foreign =
              Inl (Thrown_Error ''bad'')\<close>
    by code_simp
  from processJson_outcomes
         [where JSON_parse = sample_JSON_parse and jsonInput = \<open>Text ''{"a":1}''\<close>
            and opts = ?foreign and c = ?c] thrown
  have 4: \<open>processJson sample_JSON_parse ?foreign (Text ''{"a":1}'') ?c =
            (Inr False,
             \<lparr>formData = [(''a'', JNum 0), (''b'', JNum 2)],
              calls = [OnError (JsonAutoFillError ''bad'' PARSE_ERROR)]\<rparr>)\<close>
    by (simp add: no_options_def returns_normally_def autoFillError_def prod_eq_iff)
  from 1 2 3 4 show ?thesis by simp
qed

text \<open>
  C5, as stated, fails when a notification throws. In the first two runs the pipeline
  succeeds without cancellation and the merge result is stored, but \<^verbatim>\<open>onAfterFill\<close>
  (then \<^verbatim>\<open>onSuccess\<close>) throws: \<^verbatim>\<open>onError\<close> is called and the result is \<^verbatim>\<open>false\<close>, and in the
  first run \<^verbatim>\<open>onSuccess\<close> is never called. In the third run the parser fails and
  \<^verbatim>\<open>onError\<close> throws: the call does not resolve to \<^verbatim>\<open>false\<close>, it fails with that error.
\<close>

theorem processJson_callback_throws:
  "processJsonData sample_JSON_parse (Object [(''a'', JNum 1)])
     (no_options\<lparr>onAfterFill := Some (throws ''boom''), onError := Some returns_normally,
                 onSuccess := Some returns_normally\<rparr>)
     = Inr \<lparr>data = [(''a'', JNum 1)], cancelled = False\<rparr> \<and>
   processJson sample_JSON_parse
     (no_options\<lparr>onAfterFill := Some (throws ''boom''), onError := Some returns_normally,
                 onSuccess := Some returns_normally\<rparr>)
     (Object [(''a'', JNum 1)]) \<lparr>formData = [], calls = []\<rparr>
     = (Inr False,
        \<lparr>formData = [(''a'', JNum 1)],
         calls = [SetFormData [(''a'', JNum 1)], OnAfterFill [(''a'', JNum 1)],
                  OnError (JsonAutoFillError ''boom'' PARSE_ERROR)]\<rparr>) \<and>
   processJson sample_JSON_parse
     (no_options\<lparr>onAfterFill := Some returns_normally, onError := Some returns_normally,
                 onSuccess := Some (throws ''boom'')\<rparr>)
     (Object [(''a'', JNum 1)]) \<lparr>formData = [], calls = []\<rparr>
     = (Inr False,
        \<lparr>formData = [(''a'', JNum 1)],
         calls = [SetFormData [(''a'', JNum 1)], OnAfterFill [(''a'', JNum 1)],
                  OnSuccess [(''a'', JNum 1)],
                  OnError (JsonAutoFillError ''boom'' PARSE_ERROR)]\<rparr>) \<and>
   processJson sample_JSON_parse (no_options\<lparr>onError := Some (throws ''boom'')\<rparr>)
     (Text ''{'') \<lparr>formData = [], calls = []\<rparr>
     = (Inl (Thrown_Error ''boom''),
        \<lparr>formData = [],
         calls = [OnError (JsonAutoFillError ''Invalid JSON file'' PARSE_ERROR)]\<rparr>)"
  by code_simp
end
